theory Spec2Isabelle
  imports Complex_Main "HOL-Library.Product_Lexorder" "HOL-Library.List_Lexorder"
    "HOL-Library.Char_ord"
begin

section \<open>Video search engine: segmentation and alignment (app.py)\<close>

text \<open>
  A shallow embedding of the algorithmic core of \<^verbatim>\<open>app.py\<close>: \<^verbatim>\<open>split_audio\<close>,
  \<^verbatim>\<open>milliseconds_to_hms\<close>, \<^verbatim>\<open>search_word_in_transcript\<close> and the accumulation loop of
  \<^verbatim>\<open>process\<close>.

  Conventions of the embedding.
  \<^item> Python's unbounded integers are \<open>int\<close>. The times computed by
    \<^verbatim>\<open>chunk_start_time + (i / len(words)) * chunk_length_ms\<close> are Python floats; they are
    modelled as exact rationals (\<open>rat\<close>), so rounding of the binary representation is
    idealised away. Concrete inputs below are chosen so that the float computation is exact
    (token counts that are powers of two).
  \<^item> Strings are \<open>string\<close>; \<^verbatim>\<open>str.lower\<close> and \<^verbatim>\<open>str.split\<close> are modelled on ASCII.
  \<^item> Python dictionaries keep insertion order, which \<^verbatim>\<open>sorted\<close> (a stable sort) and
    \<^verbatim>\<open>items()\<close> observe; they are association lists with unique keys.
  \<^item> A raised exception is a value \<open>Inl e\<close> of a sum type; a loop that may run forever is
    a \<open>partial_function\<close> in the option monad, where \<open>None\<close> means that the call never
    returns.
\<close>

subsection \<open>TimeCodec: \<^verbatim>\<open>milliseconds_to_hms\<close>\<close>

definition digit_chars :: string where
  "digit_chars = ''0123456789''"

text \<open>The decimal digits of a natural number, as \<^verbatim>\<open>str\<close> prints them.\<close>

fun digits :: "nat \<Rightarrow> string" where
  "digits n = (if n < 10 then [digit_chars ! n]
               else digits (n div 10) @ [digit_chars ! (n mod 10)])"

declare digits.simps [simp del]

text \<open>
  The format specification \<^verbatim>\<open>:02\<close> applied to an integer: sign-aware zero padding to a
  minimum width of two characters.
\<close>

definition fmt02 :: "int \<Rightarrow> string" where
  "fmt02 n = (if n < 0 then CHR ''-'' # digits (nat (- n))
              else if n < 10 then CHR ''0'' # digits (nat n)
              else digits (nat n))"

text \<open>
  \<^verbatim>\<open>seconds = milliseconds // 1000; minutes = seconds // 60; hours = minutes // 60;
  minutes = minutes % 60; seconds = seconds % 60\<close>. Floor division of a float is the
  floor of the quotient.
\<close>

definition milliseconds_to_hms :: "rat \<Rightarrow> string" where
  "milliseconds_to_hms milliseconds =
     (let seconds = \<lfloor>milliseconds / 1000\<rfloor>;
          minutes = seconds div 60;
          hours = minutes div 60;
          minutes = minutes mod 60;
          seconds = seconds mod 60
      in fmt02 hours @ '':'' @ fmt02 minutes @ '':'' @ fmt02 seconds)"

text \<open>Reading a decimal string back (used only to state what a field denotes).\<close>

definition digit_value :: "char \<Rightarrow> nat" where
  "digit_value c = length (takeWhile (\<lambda>d. d \<noteq> c) digit_chars)"

definition decimal_value :: "string \<Rightarrow> nat" where
  "decimal_value s = foldl (\<lambda>a c. 10 * a + digit_value c) 0 s"

subsection \<open>WindowSegmenter: \<^verbatim>\<open>split_audio\<close>\<close>

text \<open>The overlap is the local constant \<^verbatim>\<open>overlap = 3000\<close> of \<^verbatim>\<open>split_audio\<close>.\<close>

definition overlap :: int where
  "overlap = 3000"

text \<open>
  The \<^verbatim>\<open>while start < len(audio)\<close> loop. \<open>audio_len\<close> is \<^verbatim>\<open>len(audio)\<close>, the duration
  in milliseconds. A chunk \<^verbatim>\<open>audio[start:end]\<close> is represented by the bounds
  \<open>(start, end)\<close> of the requested slice (the audio library clips the slice to the
  available audio). The loop has no exit when the step is not positive, so the result is
  an option: \<open>None\<close> is a call that never returns.

  The representation of a chunk by its bounds describes the slice only for offsets that
  are not negative, that is, as long as \<open>start\<close> stays at or above 0: for a chunk length of
  at least the overlap. Below the overlap the second iteration slices at a negative offset,
  which the audio library (not part of \<^verbatim>\<open>app.py\<close>) treats on its own terms; nothing is
  stated about the loop there.
\<close>


partial_function (option) split_audio_loop ::
  "int \<Rightarrow> int \<Rightarrow> int \<Rightarrow> (int \<times> int) list \<Rightarrow> (int \<times> int) list option" where
  "split_audio_loop audio_len chunk_length_ms start chunks =
     (if start < audio_len
      then split_audio_loop audio_len chunk_length_ms (start + (chunk_length_ms - overlap))
             (chunks @ [(start, start + chunk_length_ms)])
      else Some chunks)"

definition split_audio :: "int \<Rightarrow> int \<Rightarrow> (int \<times> int) list option" where
  "split_audio audio_len chunk_length_ms = split_audio_loop audio_len chunk_length_ms 0 []"

text \<open>
  The same loop body run for at most \<open>k\<close> iterations from the state \<open>(start, chunks)\<close>:
  what the call of \<^verbatim>\<open>split_audio\<close> has computed after \<open>k\<close> tests of the loop condition,
  whether or not it ever returns.
\<close>

fun split_audio_iter :: "nat \<Rightarrow> int \<Rightarrow> int \<Rightarrow> int \<times> (int \<times> int) list \<Rightarrow> int \<times> (int \<times> int) list" where
  "split_audio_iter 0 audio_len chunk_length_ms (start, chunks) = (start, chunks)"
| "split_audio_iter (Suc k) audio_len chunk_length_ms (start, chunks) =
     (if start < audio_len
      then split_audio_iter k audio_len chunk_length_ms
             (start + (chunk_length_ms - overlap), chunks @ [(start, start + chunk_length_ms)])
      else (start, chunks))"

text \<open>
  For the statements about the loop: the number of iterations left at offset \<open>start\<close>
  when the step is positive, and the window emitted by the \<open>k\<close>-th iteration from there.
\<close>

definition window_count :: "int \<Rightarrow> int \<Rightarrow> int \<Rightarrow> nat" where
  "window_count audio_len step start = nat ((audio_len - start + step - 1) div step)"

definition window_at :: "int \<Rightarrow> int \<Rightarrow> nat \<Rightarrow> int \<times> int" where
  "window_at chunk_length_ms start k =
     (start + int k * (chunk_length_ms - overlap),
      start + int k * (chunk_length_ms - overlap) + chunk_length_ms)"

subsection \<open>OccurrenceFinder and PhraseAssembler: \<^verbatim>\<open>search_word_in_transcript\<close>\<close>

text \<open>
  The only exception the modelled code can raise: \<^verbatim>\<open>ValueError\<close>, from
  \<^verbatim>\<open>difflib.get_close_matches\<close> (a cutoff outside \<open>[0, 1]\<close>) and from \<^verbatim>\<open>min\<close> of an
  empty list.
\<close>

datatype py_error = ValueError

text \<open>\<^verbatim>\<open>str.lower\<close> on ASCII: the 26 capital letters are mapped, every other character is kept.\<close>


definition upper_chars :: string where
  "upper_chars = ''ABCDEFGHIJKLMNOPQRSTUVWXYZ''"

definition lower_chars :: string where
  "lower_chars = ''abcdefghijklmnopqrstuvwxyz''"

definition lower_char :: "char \<Rightarrow> char" where
  "lower_char c = (case map_of (zip upper_chars lower_chars) c of Some d \<Rightarrow> d | None \<Rightarrow> c)"

definition str_lower :: "string \<Rightarrow> string" where
  "str_lower s = map lower_char s"

text \<open>
  \<^verbatim>\<open>str.split()\<close> without arguments: the tokens are the maximal runs of non-whitespace
  characters. The ASCII characters for which \<^verbatim>\<open>str.isspace\<close> holds are listed.
\<close>

definition whitespace_chars :: string where
  "whitespace_chars = [CHR 0x09, CHR 0x0A, CHR 0x0B, CHR 0x0C, CHR 0x0D,
                       CHR 0x1C, CHR 0x1D, CHR 0x1E, CHR 0x1F, CHR '' '']"

definition is_space :: "char \<Rightarrow> bool" where
  "is_space c = (c \<in> set whitespace_chars)"

fun split_from :: "string \<Rightarrow> string \<Rightarrow> string list" where
  "split_from cur [] = (if cur = [] then [] else [cur])"
| "split_from cur (c # cs) =
     (if is_space c then (if cur = [] then split_from [] cs else cur # split_from [] cs)
      else split_from (cur @ [c]) cs)"

definition str_split :: "string \<Rightarrow> string list" where
  "str_split s = split_from [] s"

text \<open>
  \<^verbatim>\<open>difflib.get_close_matches(word, possibilities, n, cutoff)\<close>. It raises \<^verbatim>\<open>ValueError\<close>
  unless \<open>n > 0\<close> and \<open>0 \<le> cutoff \<le> 1\<close>, keeps the possibilities \<open>x\<close> whose similarity to
  \<open>word\<close> is at least the cutoff, and returns the \<open>n\<close> best of them, best first, ordered as
  the tuples \<open>(score, x)\<close> are (\<^verbatim>\<open>heapq.nlargest\<close>). The similarity
  \<^verbatim>\<open>SequenceMatcher(a=x, b=word).ratio()\<close> is library code and a parameter \<open>ratio\<close> here; the
  two quick ratios that the library tests first are upper bounds of it and do not change the
  outcome.
\<close>

definition nlargest :: "int \<Rightarrow> (rat \<times> string) list \<Rightarrow> (rat \<times> string) list" where
  "nlargest n result = take (nat n) (rev (sort result))"

definition get_close_matches ::
  "(string \<Rightarrow> string \<Rightarrow> rat) \<Rightarrow> string \<Rightarrow> string list \<Rightarrow> int \<Rightarrow> rat \<Rightarrow> py_error + string list" where
  "get_close_matches ratio word possibilities n cutoff =
     (if \<not> 0 < n then Inl ValueError
      else if \<not> (0 \<le> cutoff \<and> cutoff \<le> 1) then Inl ValueError
      else Inr (map snd (nlargest n
             (map (\<lambda>x. (ratio x word, x)) (filter (\<lambda>x. cutoff \<le> ratio x word) possibilities)))))"

text \<open>
  The dictionaries \<^verbatim>\<open>timestamps\<close> and \<^verbatim>\<open>word_times\<close> map a word to a list; both are only
  ever updated by appending one value to the list of a key, creating the key (at the end of
  the insertion order) when it is new.
\<close>

type_synonym 'v pydict = "(string \<times> 'v list) list"

definition dict_append :: "'v pydict \<Rightarrow> string \<Rightarrow> 'v \<Rightarrow> 'v pydict" where
  "dict_append d k v =
     (if k \<in> fst ` set d
      then map (\<lambda>(k', vs). if k' = k then (k', vs @ [v]) else (k', vs)) d
      else d @ [(k, [v])])"

text \<open>\<^verbatim>\<open>word_time = chunk_start_time + (i / len(words)) * chunk_length_ms\<close>, with \<open>n = len(words)\<close>.\<close>

definition word_time :: "int \<Rightarrow> nat \<Rightarrow> nat \<Rightarrow> int \<Rightarrow> rat" where
  "word_time chunk_start_time i n chunk_length_ms =
     of_int chunk_start_time + (of_nat i / of_nat n) * of_int chunk_length_ms"

text \<open>
  The body shared by the two branches of the loop (lines 65-74 and 79-88): the display time
  is appended to \<^verbatim>\<open>timestamps[key]\<close> and the time to \<^verbatim>\<open>word_times[key]\<close>.
\<close>

definition record_occurrence ::
  "string \<Rightarrow> rat \<Rightarrow> string pydict \<times> rat pydict \<Rightarrow> string pydict \<times> rat pydict" where
  "record_occurrence key t st =
     (case st of (timestamps, word_times) \<Rightarrow>
        (dict_append timestamps key (milliseconds_to_hms t), dict_append word_times key t))"

text \<open>One iteration of \<^verbatim>\<open>for i, word in enumerate(words)\<close>, on the state \<open>(timestamps, word_times)\<close>.\<close>

definition scan_step ::
  "(string \<Rightarrow> string \<Rightarrow> rat) \<Rightarrow> string list \<Rightarrow> int \<Rightarrow> int \<Rightarrow> bool \<Rightarrow> rat \<Rightarrow> nat \<Rightarrow> nat \<Rightarrow> string
     \<Rightarrow> string pydict \<times> rat pydict \<Rightarrow> py_error + string pydict \<times> rat pydict" where
  "scan_step ratio search_words chunk_start_time chunk_length_ms fuzzy_match cutoff n i word st =
     (if word \<in> set search_words
      then Inr (record_occurrence word (word_time chunk_start_time i n chunk_length_ms) st)
      else if fuzzy_match
      then (case get_close_matches ratio word search_words 1 cutoff of
              Inl e \<Rightarrow> Inl e
            | Inr similar_words \<Rightarrow>
                (case similar_words of
                   [] \<Rightarrow> Inr st
                 | closest_word # _ \<Rightarrow>
                     Inr (record_occurrence closest_word
                            (word_time chunk_start_time i n chunk_length_ms) st)))
      else Inr st)"

text \<open>The loop over the remaining \<open>(i, word)\<close> pairs; an exception ends it.\<close>

fun scan_tokens ::
  "(string \<Rightarrow> string \<Rightarrow> rat) \<Rightarrow> string list \<Rightarrow> int \<Rightarrow> int \<Rightarrow> bool \<Rightarrow> rat \<Rightarrow> nat \<Rightarrow> nat \<Rightarrow> string list
     \<Rightarrow> string pydict \<times> rat pydict \<Rightarrow> py_error + string pydict \<times> rat pydict" where
  "scan_tokens ratio search_words chunk_start_time chunk_length_ms fuzzy_match cutoff n i [] st = Inr st"
| "scan_tokens ratio search_words chunk_start_time chunk_length_ms fuzzy_match cutoff n i (word # rest) st =
     (case scan_step ratio search_words chunk_start_time chunk_length_ms fuzzy_match cutoff n i word st of
        Inl e \<Rightarrow> Inl e
      | Inr st' \<Rightarrow>
          scan_tokens ratio search_words chunk_start_time chunk_length_ms fuzzy_match cutoff n (Suc i) rest st')"

text \<open>
  \<^verbatim>\<open>min(xs)\<close> raises \<^verbatim>\<open>ValueError\<close> on an empty list. The key of
  \<^verbatim>\<open>sorted(word_times.keys(), key=...)\<close> is the earliest time of the word, or
  \<^verbatim>\<open>float('inf')\<close> for an empty list: the pair \<open>(True, 0)\<close> is above every \<open>(False, t)\<close>.
  The sorted keys are carried together with their lists \<^verbatim>\<open>word_times[w]\<close>.
\<close>

definition py_min :: "rat list \<Rightarrow> py_error + rat" where
  "py_min xs = (if xs = [] then Inl ValueError else Inr (min_list xs))"

definition sort_time :: "string \<times> rat list \<Rightarrow> bool \<times> rat" where
  "sort_time e = (if snd e = [] then (True, 0) else (False, min_list (snd e)))"

text \<open>
  The inner loop \<^verbatim>\<open>while j < len(sorted_words)\<close> on the words from position \<open>j\<close> on: it
  returns \<^verbatim>\<open>concatenated\<close>, \<^verbatim>\<open>min_time\<close> and the words from the final \<open>j\<close> on.
\<close>

fun extend_phrase ::
  "rat list \<Rightarrow> string \<Rightarrow> rat \<Rightarrow> rat pydict \<Rightarrow> py_error + string \<times> rat \<times> rat pydict" where
  "extend_phrase current_times concatenated min_time [] = Inr (concatenated, min_time, [])"
| "extend_phrase current_times concatenated min_time ((next_word, next_times) # rest) =
     (case py_min next_times of
        Inl e \<Rightarrow> Inl e
      | Inr next_min \<Rightarrow>
          (case py_min current_times of
             Inl e \<Rightarrow> Inl e
           | Inr current_min \<Rightarrow>
               if \<bar>next_min - current_min\<bar> \<le> 1000
               then extend_phrase next_times (concatenated @ '' '' @ next_word)
                      (min min_time next_min) rest
               else Inr (concatenated, min_time, (next_word, next_times) # rest)))"

text \<open>
  The inner loop only moves \<open>j\<close> forward, so what remains is no longer than what it was
  given; the outer loop terminates by this.
\<close>

lemma extend_phrase_length:
  "extend_phrase current_times concatenated min_time ws = Inr (c, m, remaining)
     \<Longrightarrow> length remaining \<le> length ws"
proof (induction ws arbitrary: current_times concatenated min_time)
  case Nil
  then show ?case by simp
next
  case (Cons w ws)
  obtain next_word next_times where w: "w = (next_word, next_times)" by (cases w)
  show ?case
    using Cons.prems Cons.IH[of next_times "concatenated @ '' '' @ next_word"] unfolding w
    by (fastforce split: sum.splits if_splits)
qed

text \<open>
  The outer loop \<^verbatim>\<open>while i < len(sorted_words) - 1\<close> on the words from position \<open>i\<close>
  on, returning \<open>(concatenated_words, concatenated_times)\<close>.
\<close>

function assemble_phrases :: "rat pydict \<Rightarrow> py_error + string list \<times> string list" where
  "assemble_phrases [] = Inr ([], [])"
| "assemble_phrases [last_word] = Inr ([], [])"
| "assemble_phrases ((current_word, current_times) # next_entry # rest) =
     (case py_min current_times of
        Inl e \<Rightarrow> Inl e
      | Inr min_time \<Rightarrow>
          (case extend_phrase current_times current_word min_time (next_entry # rest) of
             Inl e \<Rightarrow> Inl e
           | Inr (concatenated, min_time', remaining) \<Rightarrow>
               (case assemble_phrases remaining of
                  Inl e \<Rightarrow> Inl e
                | Inr (concatenated_words, concatenated_times) \<Rightarrow>
                    if concatenated \<noteq> current_word
                    then Inr (concatenated # concatenated_words,
                              milliseconds_to_hms min_time' # concatenated_times)
                    else Inr (concatenated_words, concatenated_times))))"
  by pat_completeness auto
termination
  apply (relation "measure length")
   apply simp
  apply (auto dest: extend_phrase_length)
  done

definition search_word_in_transcript ::
  "(string \<Rightarrow> string \<Rightarrow> rat) \<Rightarrow> string \<Rightarrow> string list \<Rightarrow> int \<Rightarrow> int \<Rightarrow> bool \<Rightarrow> rat
     \<Rightarrow> py_error + string pydict \<times> string list \<times> string list" where
  "search_word_in_transcript ratio transcript search_words chunk_start_time chunk_length_ms
       fuzzy_match cutoff =
     (let words = str_split (str_lower transcript);
          search_words = map str_lower search_words
      in case scan_tokens ratio search_words chunk_start_time chunk_length_ms fuzzy_match cutoff
                (length words) 0 words ([], []) of
           Inl e \<Rightarrow> Inl e
         | Inr (timestamps, word_times) \<Rightarrow>
             (case assemble_phrases (sort_key sort_time word_times) of
                Inl e \<Rightarrow> Inl e
              | Inr (concatenated_words, concatenated_times) \<Rightarrow>
                  Inr (timestamps, concatenated_words, concatenated_times)))"

text \<open>A similarity function for the concrete examples: \<open>fax\<close> is close to \<open>fox\<close> only.\<close>

definition example_ratio :: "string \<Rightarrow> string \<Rightarrow> rat" where
  "example_ratio x word = (if x = ''fox'' \<and> word = ''fax'' then 2 / 3 else 1 / 3)"

subsection \<open>Notions used to state the properties of the token loop\<close>

text \<open>
  The key under which an iteration of the token loop records the token \<open>word\<close>, if it
  records it: the token itself when it is a search term, else the head of the close matches.
\<close>

definition attribution ::
  "(string \<Rightarrow> string \<Rightarrow> rat) \<Rightarrow> string list \<Rightarrow> bool \<Rightarrow> rat \<Rightarrow> string \<Rightarrow> string option" where
  "attribution ratio search_words fuzzy_match cutoff word =
     (if word \<in> set search_words then Some word
      else if fuzzy_match
      then (case get_close_matches ratio word search_words 1 cutoff of
              Inr (closest_word # _) \<Rightarrow> Some closest_word
            | _ \<Rightarrow> None)
      else None)"

text \<open>The positions, counted from \<open>i\<close>, of the tokens that \<open>attr\<close> attributes to \<open>w\<close>.\<close>

fun attributed_indices :: "(string \<Rightarrow> string option) \<Rightarrow> string \<Rightarrow> nat \<Rightarrow> string list \<Rightarrow> nat list" where
  "attributed_indices attr w i [] = []"
| "attributed_indices attr w i (word # rest) =
     (if attr word = Some w then i # attributed_indices attr w (Suc i) rest
      else attributed_indices attr w (Suc i) rest)"

text \<open>A dictionary entry after the values \<open>new\<close> have been appended to it one by one.\<close>

definition extend_entry :: "'v list option \<Rightarrow> 'v list \<Rightarrow> 'v list option" where
  "extend_entry old new =
     (if new = [] then old else Some ((case old of None \<Rightarrow> [] | Some vs \<Rightarrow> vs) @ new))"

text \<open>
  Attribution as the specification words it. The single best similarity match of a token
  among the search terms is a term of maximal similarity (among several of them, the
  greatest in the order of strings, which is how \<^verbatim>\<open>difflib\<close> ranks its candidates).
\<close>

definition best_match :: "(string \<Rightarrow> string \<Rightarrow> rat) \<Rightarrow> string list \<Rightarrow> string \<Rightarrow> string option" where
  "best_match ratio terms token =
     (if terms = [] then None
      else Some (snd (Max (set (map (\<lambda>x. (ratio x token, x)) terms)))))"

text \<open>
  A token that equals a search term is attributed to that term, and fuzzy matching is not
  attempted; any other token is attributed, when fuzzy matching is enabled, to its best
  match if the similarity of that match is at least the cutoff, and to nothing otherwise.
\<close>

definition spec_attribution ::
  "(string \<Rightarrow> string \<Rightarrow> rat) \<Rightarrow> string list \<Rightarrow> bool \<Rightarrow> rat \<Rightarrow> string \<Rightarrow> string option" where
  "spec_attribution ratio terms fuzzy_match cutoff token =
     (if token \<in> set terms then Some token
      else if fuzzy_match
      then (case best_match ratio terms token of
              None \<Rightarrow> None
            | Some best \<Rightarrow> if cutoff \<le> ratio best token then Some best else None)
      else None)"

subsection \<open>Phrase clustering as the specification words it\<close>

text \<open>
  Greedy clustering over the words in order, each with its earliest time: the current
  cluster is extended by the next word when that word's earliest time is within 1000 ms of
  the \<open>reference\<close>, the earliest time of the word accepted last, which then becomes the
  reference; otherwise the cluster is closed and the word starts a new one.
\<close>

fun greedy_clusters ::
  "(string \<times> rat) list \<Rightarrow> rat \<Rightarrow> (string \<times> rat) list \<Rightarrow> (string \<times> rat) list list" where
  "greedy_clusters cluster reference [] = [cluster]"
| "greedy_clusters cluster reference (w # ws) =
     (if \<bar>snd w - reference\<bar> \<le> 1000
      then greedy_clusters (cluster @ [w]) (snd w) ws
      else cluster # greedy_clusters [w] (snd w) ws)"

definition clusters :: "(string \<times> rat) list \<Rightarrow> (string \<times> rat) list list" where
  "clusters ws = (case ws of [] \<Rightarrow> [] | w # ws' \<Rightarrow> greedy_clusters [w] (snd w) ws')"

text \<open>The words of a phrase joined by single spaces.\<close>

definition phrase_text :: "string list \<Rightarrow> string" where
  "phrase_text ws = (case ws of [] \<Rightarrow> [] | w # ws' \<Rightarrow> w @ concat (map (\<lambda>v. '' '' @ v) ws'))"

text \<open>
  The distinct words with their earliest occurrence times, ordered as the code orders them
  (ascending earliest time, ties in insertion order).
\<close>

definition earliest :: "string \<times> rat list \<Rightarrow> string \<times> rat" where
  "earliest e = (fst e, Min (set (snd e)))"

definition earliest_times :: "rat pydict \<Rightarrow> (string \<times> rat) list" where
  "earliest_times word_times = map earliest (sort_key sort_time word_times)"

text \<open>
  A phrase is emitted for every cluster of two or more words; its display time is the
  minimum of the times of its words.
\<close>

definition phrase_of :: "(string \<times> rat) list \<Rightarrow> string \<times> string" where
  "phrase_of c = (phrase_text (map fst c), milliseconds_to_hms (Min (set (map snd c))))"

definition spec_phrases :: "(string \<times> rat) list \<Rightarrow> (string \<times> string) list" where
  "spec_phrases ws = map phrase_of (filter (\<lambda>c. 2 \<le> length c) (clusters ws))"

text \<open>Each member of a cluster is within 1000 ms of the member before it.\<close>

fun chained :: "(string \<times> rat) list \<Rightarrow> bool" where
  "chained [] = True"
| "chained [x] = True"
| "chained (x # y # zs) = (\<bar>snd y - snd x\<bar> \<le> 1000 \<and> chained (y # zs))"

subsection \<open>AlignmentPipeline: the accumulation loop of \<^verbatim>\<open>process\<close>\<close>

text \<open>
  \<^verbatim>\<open>for word, times in word_timestamps.items()\<close>: the times of a word already in
  \<^verbatim>\<open>timestamps\<close> are appended to its list, a new word is inserted with its list.
\<close>

fun merge_word_timestamps :: "string pydict \<Rightarrow> string pydict \<Rightarrow> string pydict" where
  "merge_word_timestamps timestamps [] = timestamps"
| "merge_word_timestamps timestamps ((word, time_list) # rest) =
     merge_word_timestamps
       (if word \<in> fst ` set timestamps
        then map (\<lambda>(k, vs). if k = word then (k, vs @ time_list) else (k, vs)) timestamps
        else timestamps @ [(word, time_list)])
       rest"

text \<open>
  \<^verbatim>\<open>for concatenated, time in zip(concatenated_words, concatenated_times)\<close>: a phrase is
  inserted with the one-element list of its time only when the key is not in the map yet.
\<close>

fun merge_phrases :: "string pydict \<Rightarrow> (string \<times> string) list \<Rightarrow> string pydict" where
  "merge_phrases timestamps [] = timestamps"
| "merge_phrases timestamps ((concatenated, time) # rest) =
     merge_phrases
       (if concatenated \<notin> fst ` set timestamps
        then timestamps @ [(concatenated, [time])]
        else timestamps)
       rest"

text \<open>
  \<^verbatim>\<open>for i, chunk in enumerate(chunks)\<close> on the chunks from index \<open>i\<close> on. Each chunk is
  given by the text that the speech recogniser returns for it (the empty string on failure);
  the chunk starts at \<open>i * (15000 - 3000)\<close> and is searched with a window length of 15000.
  An exception raised by the search ends the run.
\<close>

fun process_chunks ::
  "(string \<Rightarrow> string \<Rightarrow> rat) \<Rightarrow> string list \<Rightarrow> bool \<Rightarrow> rat \<Rightarrow> nat \<Rightarrow> string list \<Rightarrow> string pydict
     \<Rightarrow> py_error + string pydict" where
  "process_chunks ratio search_words fuzzy_match cutoff i [] timestamps = Inr timestamps"
| "process_chunks ratio search_words fuzzy_match cutoff i (text # rest) timestamps =
     (case search_word_in_transcript ratio text search_words (int i * (15000 - 3000)) 15000
             fuzzy_match cutoff of
        Inl e \<Rightarrow> Inl e
      | Inr (word_timestamps, concatenated_words, concatenated_times) \<Rightarrow>
          process_chunks ratio search_words fuzzy_match cutoff (Suc i) rest
            (merge_phrases (merge_word_timestamps timestamps word_timestamps)
               (zip concatenated_words concatenated_times)))"

text \<open>
  For the statement about phrase keys: the display time that the first window (from index
  \<open>i\<close> on) whose search emits \<open>phrase\<close> gives to it.
\<close>

fun first_phrase_time ::
  "(string \<Rightarrow> string \<Rightarrow> rat) \<Rightarrow> string list \<Rightarrow> bool \<Rightarrow> rat \<Rightarrow> nat \<Rightarrow> string list \<Rightarrow> string
     \<Rightarrow> string option" where
  "first_phrase_time ratio search_words fuzzy_match cutoff i [] phrase = None"
| "first_phrase_time ratio search_words fuzzy_match cutoff i (text # rest) phrase =
     (case search_word_in_transcript ratio text search_words (int i * (15000 - 3000)) 15000
             fuzzy_match cutoff of
        Inl e \<Rightarrow> None
      | Inr (word_timestamps, concatenated_words, concatenated_times) \<Rightarrow>
          (case map_of (zip concatenated_words concatenated_times) phrase of
             Some time \<Rightarrow> Some time
           | None \<Rightarrow> first_phrase_time ratio search_words fuzzy_match cutoff (Suc i) rest phrase))"

section \<open>Auxiliary lemmas\<close>

subsection \<open>Decimal strings\<close>

lemma floor_rat_numeral:
  "\<lfloor>(numeral a :: rat) / numeral b\<rfloor> = numeral a div numeral b"
  using floor_divide_of_int_eq[of "numeral a" "numeral b", where ?'a = rat] by simp

lemma digit_value_digit: "d < 10 \<Longrightarrow> digit_value (digit_chars ! d) = d"
proof -
  assume "d < 10"
  then have "d \<in> {0,1,2,3,4,5,6,7,8,9}" by auto
  then show ?thesis
    by (auto simp: digit_value_def digit_chars_def)
qed

lemma decimal_value_snoc: "decimal_value (s @ [c]) = 10 * decimal_value s + digit_value c"
  by (simp add: decimal_value_def)

lemma decimal_value_digits: "decimal_value (digits n) = n"
proof (induction n rule: digits.induct)
  case (1 n)
  show ?case
  proof (cases "n < 10")
    case True
    then show ?thesis
      by (subst digits.simps) (simp add: decimal_value_def digit_value_digit)
  next
    case False
    then have "decimal_value (digits (n div 10)) = n div 10" using 1 by simp
    with False show ?thesis
      by (subst digits.simps) (simp add: decimal_value_snoc digit_value_digit)
  qed
qed

lemma length_digits: "Suc 0 \<le> length (digits n)"
  by (subst digits.simps) simp

lemma length_digits_ge10: "10 \<le> n \<Longrightarrow> 2 \<le> length (digits n)"
  using length_digits[of "n div 10"] by (subst digits.simps) simp

lemma decimal_value_zero_cons: "decimal_value (CHR ''0'' # s) = decimal_value s"
  by (simp add: decimal_value_def digit_value_def digit_chars_def)

lemma hms_of_nat:
  "milliseconds_to_hms (of_nat m) =
     fmt02 (int (m div 3600000)) @ '':'' @ fmt02 (int (m div 60000 mod 60)) @ '':'' @
     fmt02 (int (m div 1000 mod 60))"
proof -
  have f: "\<lfloor>(of_nat m :: rat) / 1000\<rfloor> = int (m div 1000)"
    using floor_divide_of_nat_eq[of m 1000, where ?'a = rat] by simp
  have n1: "m div 1000 div 60 = m div 60000" and n2: "m div 1000 div 60 div 60 = m div 3600000"
    by (simp_all add: div_mult2_eq[symmetric])
  have a: "int (m div 1000) div 60 div 60 = int (m div 3600000)"
    unfolding n2[symmetric] by (simp add: zdiv_int)
  have b: "int (m div 1000) div 60 mod 60 = int (m div 60000 mod 60)"
    unfolding n1[symmetric] by (simp add: zdiv_int zmod_int)
  have c: "int (m div 1000) mod 60 = int (m div 1000 mod 60)"
    by (simp add: zmod_int)
  show ?thesis
    unfolding milliseconds_to_hms_def Let_def f a b c ..
qed

subsection \<open>The segmentation loop\<close>

lemma window_count_done: "0 < step \<Longrightarrow> audio_len \<le> start \<Longrightarrow> window_count audio_len step start = 0"
proof -
  assume s: "0 < step" and d: "audio_len \<le> start"
  then have "audio_len - start + step - 1 < step" by simp
  then have "(audio_len - start + step - 1) div step \<le> 0"
    using s by (smt (verit) div_pos_pos_trivial div_nonpos_pos_le0)
  then show ?thesis by (simp add: window_count_def)
qed

lemma window_count_step:
  assumes "0 < step" "start < audio_len"
  shows "window_count audio_len step start = Suc (window_count audio_len step (start + step))"
proof -
  have e: "audio_len - start + step - 1 = (audio_len - (start + step) + step - 1) + 1 * step"
    by simp
  have "(audio_len - start + step - 1) div step = (audio_len - (start + step) + step - 1) div step + 1"
    unfolding e using assms(1) by (simp only: div_mult_self1)
  moreover have "0 \<le> (audio_len - (start + step) + step - 1) div step"
    using assms by (simp add: pos_imp_zdiv_nonneg_iff)
  ultimately show ?thesis by (simp add: window_count_def)
qed

lemma split_audio_loop_returns:
  assumes "overlap < chunk_length_ms"
  shows "window_count audio_len (chunk_length_ms - overlap) start = n \<Longrightarrow>
         split_audio_loop audio_len chunk_length_ms start chunks =
           Some (chunks @ map (window_at chunk_length_ms start) [0..<n])"
proof (induction n arbitrary: start chunks)
  case 0
  have "\<not> start < audio_len"
  proof
    assume "start < audio_len"
    from window_count_step[OF _ this, of "chunk_length_ms - overlap"] assms 0 show False by simp
  qed
  then show ?case by (subst split_audio_loop.simps) simp
next
  case (Suc n)
  have lt: "start < audio_len"
  proof (rule ccontr)
    assume "\<not> start < audio_len"
    then have "window_count audio_len (chunk_length_ms - overlap) start = 0"
      using assms by (intro window_count_done) simp_all
    with Suc.prems show False by simp
  qed
  then have "window_count audio_len (chunk_length_ms - overlap) (start + (chunk_length_ms - overlap)) = n"
    using window_count_step[of "chunk_length_ms - overlap" start audio_len] assms Suc.prems by simp
  from Suc.IH[OF this]
  have "split_audio_loop audio_len chunk_length_ms (start + (chunk_length_ms - overlap))
          (chunks @ [(start, start + chunk_length_ms)]) =
        Some ((chunks @ [(start, start + chunk_length_ms)]) @
              map (window_at chunk_length_ms (start + (chunk_length_ms - overlap))) [0..<n])" .
  moreover have "map (window_at chunk_length_ms start) [0..<Suc n] =
      (start, start + chunk_length_ms) #
      map (window_at chunk_length_ms (start + (chunk_length_ms - overlap))) [0..<n]"
  proof -
    have "[0..<Suc n] = 0 # map Suc [0..<n]"
      by (simp add: upt_conv_Cons map_Suc_upt del: upt_Suc)
    then show ?thesis
      by (simp add: window_at_def algebra_simps del: upt_Suc)
  qed
  ultimately show ?case using lt
    by (subst split_audio_loop.simps) (simp del: upt_Suc)
qed

lemma split_audio_loop_diverges:
  assumes "chunk_length_ms \<le> overlap" "start < audio_len"
  shows "split_audio_loop audio_len chunk_length_ms start chunks = None"
proof (cases "split_audio_loop audio_len chunk_length_ms start chunks")
  case None
  then show ?thesis .
next
  case (Some y)
  have "\<not> (chunk_length_ms \<le> overlap \<and> start < audio_len)"
  proof (rule split_audio_loop.raw_induct
      [where P = "\<lambda>a c s ch y. \<not> (c \<le> overlap \<and> s < a)", OF _ Some])
    fix loop a c s ch r
    assume IH: "\<And>a c s ch r. loop a c s ch = Some r \<Longrightarrow> \<not> (c \<le> overlap \<and> s < a)"
      and body: "(if s < a then loop a c (s + (c - overlap)) (ch @ [(s, s + c)]) else Some ch) = Some r"
    show "\<not> (c \<le> overlap \<and> s < a)"
    proof
      assume h: "c \<le> overlap \<and> s < a"
      then have "loop a c (s + (c - overlap)) (ch @ [(s, s + c)]) = Some r"
        using body by simp
      from IH[OF this] h show False by simp
    qed
  qed
  with assms show ?thesis by simp
qed

lemma window_count_bounds:
  assumes "0 < step" "0 < audio_len"
  shows "0 < window_count audio_len step 0"
    and "int (window_count audio_len step 0 - 1) * step < audio_len"
    and "audio_len \<le> int (window_count audio_len step 0) * step"
proof -
  define q where "q = (audio_len + step - 1) div step"
  have "0 < q"
    unfolding q_def using assms pos_imp_zdiv_pos_iff[of step "audio_len + step - 1"] by simp
  then have q1: "1 \<le> q" by simp
  define r where "r = (audio_len + step - 1) mod step"
  have r: "0 \<le> r" "r < step"
    unfolding r_def using assms(1) by simp_all
  have dm: "audio_len + step - 1 = q * step + r"
    unfolding q_def r_def by simp
  have lo: "q * step \<le> audio_len + step - 1"
    using dm r(1) by linarith
  have hi: "audio_len + step - 1 < (q + 1) * step"
    using dm r(2) by (simp add: algebra_simps)
  have n: "int (window_count audio_len step 0) = q"
    using q1 by (simp add: window_count_def q_def)
  show "0 < window_count audio_len step 0"
    using n q1 by linarith
  then have n1: "int (window_count audio_len step 0 - 1) = q - 1"
    using n by linarith
  show "int (window_count audio_len step 0 - 1) * step < audio_len"
    unfolding n1 using lo by (simp add: algebra_simps)
  show "audio_len \<le> int (window_count audio_len step 0) * step"
    unfolding n using hi by (simp add: algebra_simps)
qed

subsection \<open>Close matches and one iteration of the token loop\<close>

lemma sorted_le_last: "sorted xs \<Longrightarrow> y \<in> set xs \<Longrightarrow> y \<le> last xs"
  by (induction xs) auto

lemma nlargest_one_Nil: "nlargest 1 [] = []"
  by (simp add: nlargest_def)

lemma nlargest_one:
  assumes "xs \<noteq> []"
  shows "\<exists>b. nlargest 1 xs = [b] \<and> b \<in> set xs \<and> (\<forall>y\<in>set xs. y \<le> b)"
proof -
  let ?s = "sort xs"
  have ne: "?s \<noteq> []" using assms by (metis length_0_conv length_sort)
  then have r: "rev ?s = last ?s # rev (butlast ?s)"
    by (metis append_butlast_last_id rev.simps(2) rev_append rev_rev_ident rev_singleton_conv append_Cons append_Nil)
  have "nlargest 1 xs = [last ?s]"
    unfolding nlargest_def by (subst r) simp
  moreover have "last ?s \<in> set xs" using ne last_in_set[of ?s] by simp
  moreover have "\<forall>y\<in>set xs. y \<le> last ?s"
  proof
    fix y assume "y \<in> set xs"
    then have "y \<in> set ?s" by simp
    then show "y \<le> last ?s"
      using sorted_le_last[OF sorted_sort[of xs]] by blast
  qed
  ultimately show ?thesis by blast
qed

lemma get_close_matches_none:
  assumes "0 \<le> cutoff" "cutoff \<le> 1" "\<forall>x\<in>set possibilities. ratio x word < cutoff"
  shows "get_close_matches ratio word possibilities 1 cutoff = Inr []"
proof -
  have "filter (\<lambda>x. cutoff \<le> ratio x word) possibilities = []"
    using assms(3) by (auto simp: filter_empty_conv)
  then show ?thesis using assms(1,2) by (simp add: get_close_matches_def nlargest_one_Nil)
qed

lemma get_close_matches_best:
  assumes "0 \<le> cutoff" "cutoff \<le> 1" "\<exists>x\<in>set possibilities. cutoff \<le> ratio x word"
  shows "\<exists>c\<in>set possibilities. get_close_matches ratio word possibilities 1 cutoff = Inr [c]
           \<and> cutoff \<le> ratio c word \<and> (\<forall>x\<in>set possibilities. ratio x word \<le> ratio c word)"
proof -
  let ?cands = "map (\<lambda>x. (ratio x word, x)) (filter (\<lambda>x. cutoff \<le> ratio x word) possibilities)"
  have "?cands \<noteq> []" using assms(3) by (auto simp: filter_empty_conv)
  from nlargest_one[OF this] obtain b where
    b: "nlargest 1 ?cands = [b]" "b \<in> set ?cands" "\<forall>y\<in>set ?cands. y \<le> b" by blast
  from b(2) obtain c where c: "b = (ratio c word, c)" "c \<in> set possibilities" "cutoff \<le> ratio c word"
    by auto
  have "ratio x word \<le> ratio c word" if "x \<in> set possibilities" for x
  proof (cases "cutoff \<le> ratio x word")
    case True
    then have "(ratio x word, x) \<in> set ?cands" using that by auto
    with b(3) have "(ratio x word, x) \<le> (ratio c word, c)" unfolding c(1) by blast
    then show ?thesis by (auto simp: less_eq_prod_def)
  next
    case False
    then show ?thesis using c(3) by simp
  qed
  moreover have "get_close_matches ratio word possibilities 1 cutoff = Inr [c]"
    using assms(1,2) b(1) c(1) by (simp add: get_close_matches_def)
  ultimately show ?thesis using c by blast
qed

lemma scan_step_exact:
  "word \<in> set search_words \<Longrightarrow>
     scan_step ratio search_words chunk_start_time chunk_length_ms fuzzy_match cutoff n i word st =
       Inr (record_occurrence word (word_time chunk_start_time i n chunk_length_ms) st)"
  by (simp add: scan_step_def)

lemma scan_step_no_fuzzy:
  "word \<notin> set search_words \<Longrightarrow> \<not> fuzzy_match \<Longrightarrow>
     scan_step ratio search_words chunk_start_time chunk_length_ms fuzzy_match cutoff n i word st =
       Inr st"
  by (simp add: scan_step_def)

lemma scan_step_below_cutoff:
  assumes "word \<notin> set search_words" "0 \<le> cutoff" "cutoff \<le> 1"
    and "\<forall>x\<in>set search_words. ratio x word < cutoff"
  shows "scan_step ratio search_words chunk_start_time chunk_length_ms fuzzy_match cutoff n i word st =
           Inr st"
  using assms get_close_matches_none[of cutoff search_words ratio word]
  by (simp add: scan_step_def)

lemma scan_step_fuzzy_best:
  assumes "word \<notin> set search_words" "fuzzy_match" "0 \<le> cutoff" "cutoff \<le> 1"
    and "\<exists>x\<in>set search_words. cutoff \<le> ratio x word"
  shows "\<exists>c\<in>set search_words. cutoff \<le> ratio c word
         \<and> (\<forall>x\<in>set search_words. ratio x word \<le> ratio c word)
         \<and> scan_step ratio search_words chunk_start_time chunk_length_ms fuzzy_match cutoff n i word st =
             Inr (record_occurrence c (word_time chunk_start_time i n chunk_length_ms) st)"
proof -
  obtain c where c: "c \<in> set search_words"
      "get_close_matches ratio word search_words 1 cutoff = Inr [c]"
      "cutoff \<le> ratio c word" "\<forall>x\<in>set search_words. ratio x word \<le> ratio c word"
    using get_close_matches_best[of cutoff search_words ratio word] assms(3,4,5) by blast
  have "scan_step ratio search_words chunk_start_time chunk_length_ms fuzzy_match cutoff n i word st =
             Inr (record_occurrence c (word_time chunk_start_time i n chunk_length_ms) st)"
    using assms(1,2) c(2) by (simp add: scan_step_def)
  with c show ?thesis by blast
qed

lemma scan_tokens_unmatched:
  assumes "\<forall>word\<in>set words. word \<notin> set search_words"
    and "fuzzy_match \<longrightarrow> 0 \<le> cutoff \<and> cutoff \<le> 1"
    and "fuzzy_match \<longrightarrow> (\<forall>word\<in>set words. \<forall>x\<in>set search_words. ratio x word < cutoff)"
  shows "scan_tokens ratio search_words chunk_start_time chunk_length_ms fuzzy_match cutoff n i words st =
           Inr st"
  using assms
proof (induction words arbitrary: i)
  case Nil
  then show ?case by simp
next
  case (Cons word rest)
  have "scan_step ratio search_words chunk_start_time chunk_length_ms fuzzy_match cutoff n i word st = Inr st"
  proof (cases fuzzy_match)
    case True
    then show ?thesis using Cons.prems by (intro scan_step_below_cutoff) simp_all
  next
    case False
    then show ?thesis using Cons.prems by (intro scan_step_no_fuzzy) simp_all
  qed
  moreover have "scan_tokens ratio search_words chunk_start_time chunk_length_ms fuzzy_match cutoff n (Suc i) rest st = Inr st"
    using Cons.prems by (intro Cons.IH) simp_all
  ultimately show ?case by simp
qed

subsection \<open>The dictionaries built by the token loop\<close>

lemma map_of_map_keyed:
  "map_of (map (\<lambda>(k, vs). (k, f k vs)) d) x = map_option (f x) (map_of d x)"
  by (induction d) auto

lemma dict_append_map_of:
  "map_of (dict_append d k v) k' =
     (if k' = k then Some ((case map_of d k of None \<Rightarrow> [] | Some vs \<Rightarrow> vs) @ [v]) else map_of d k')"
proof (cases "k \<in> fst ` set d")
  case True
  then obtain vs where vs: "map_of d k = Some vs"
    by (metis map_of_eq_None_iff not_Some_eq)
  have e: "(\<lambda>(k', vs). if k' = k then (k', vs @ [v]) else (k', vs)) =
        (\<lambda>(k', vs). (k', (\<lambda>k' vs. if k' = k then vs @ [v] else vs) k' vs))"
    by auto
  show ?thesis
    using True vs unfolding dict_append_def
    by (simp only: if_True e map_of_map_keyed) (cases "map_of d k'"; auto)
next
  case False
  then have "map_of d k = None" by (simp add: map_of_eq_None_iff)
  with False show ?thesis
    by (auto simp: dict_append_def map_add_def split: option.splits)
qed

lemma dict_append_keys:
  "map fst (dict_append d k v) = (if k \<in> fst ` set d then map fst d else map fst d @ [k])"
proof -
  have "map fst (map (\<lambda>(k', vs). if k' = k then (k', vs @ [v]) else (k', vs)) d) = map fst d"
    by (induction d) auto
  then show ?thesis by (simp add: dict_append_def)
qed

lemma dict_append_distinct:
  "distinct (map fst d) \<Longrightarrow> distinct (map fst (dict_append d k v))"
  by (auto simp: dict_append_keys)

lemma dict_append_map_values:
  "dict_append (map (\<lambda>(w, xs). (w, map f xs)) d) k (f v) =
     map (\<lambda>(w, xs). (w, map f xs)) (dict_append d k v)"
proof -
  have "fst ` set (map (\<lambda>(w, xs). (w, map f xs)) d) = fst ` set d"
    by force
  then show ?thesis
    by (auto simp: dict_append_def)
qed

lemma scan_step_result:
  assumes "scan_step ratio search_words chunk_start_time chunk_length_ms fuzzy_match cutoff n i word st = Inr st'"
  shows "st' = (case attribution ratio search_words fuzzy_match cutoff word of
                  None \<Rightarrow> st
                | Some key \<Rightarrow> record_occurrence key (word_time chunk_start_time i n chunk_length_ms) st)"
  using assms
  by (auto simp: scan_step_def attribution_def split: if_splits sum.splits list.splits)

lemma extend_entry_step:
  "extend_entry (Some ((case old of None \<Rightarrow> [] | Some vs \<Rightarrow> vs) @ [t])) new = extend_entry old (t # new)"
  by (simp add: extend_entry_def)

lemma scan_tokens_word_times:
  assumes "scan_tokens ratio search_words chunk_start_time chunk_length_ms fuzzy_match cutoff n i rest
             (timestamps, word_times) = Inr (timestamps', word_times')"
  shows "map_of word_times' w =
           extend_entry (map_of word_times w)
             (map (\<lambda>j. word_time chunk_start_time j n chunk_length_ms)
                (attributed_indices (attribution ratio search_words fuzzy_match cutoff) w i rest))"
  using assms
proof (induction rest arbitrary: i timestamps word_times)
  case Nil
  then show ?case by (simp add: extend_entry_def)
next
  case (Cons word rest)
  let ?attr = "attribution ratio search_words fuzzy_match cutoff"
  let ?t = "word_time chunk_start_time i n chunk_length_ms"
  from Cons.prems obtain st1 where
    step: "scan_step ratio search_words chunk_start_time chunk_length_ms fuzzy_match cutoff n i word
             (timestamps, word_times) = Inr st1"
    and rest: "scan_tokens ratio search_words chunk_start_time chunk_length_ms fuzzy_match cutoff n (Suc i) rest
             st1 = Inr (timestamps', word_times')"
    by (auto split: sum.splits)
  obtain ts1 wt1 where st1: "st1 = (ts1, wt1)" by (cases st1)
  note IH = Cons.IH[OF rest[unfolded st1]]
  show ?case
  proof (cases "?attr word")
    case None
    then have "wt1 = word_times"
      using scan_step_result[OF step] st1 by simp
    with IH None show ?thesis by simp
  next
    case (Some key)
    then have wt1: "wt1 = dict_append word_times key ?t"
      using scan_step_result[OF step] st1 by (simp add: record_occurrence_def)
    show ?thesis
    proof (cases "key = w")
      case True
      with IH Some show ?thesis
        unfolding wt1 by (simp add: dict_append_map_of extend_entry_step)
    next
      case False
      with IH Some show ?thesis
        unfolding wt1 by (simp add: dict_append_map_of)
    qed
  qed
qed

lemma scan_tokens_timestamps:
  assumes "scan_tokens ratio search_words chunk_start_time chunk_length_ms fuzzy_match cutoff n i rest
             (timestamps, word_times) = Inr (timestamps', word_times')"
    and "timestamps = map (\<lambda>(w, ts). (w, map milliseconds_to_hms ts)) word_times"
    and "distinct (map fst word_times)"
  shows "timestamps' = map (\<lambda>(w, ts). (w, map milliseconds_to_hms ts)) word_times'
         \<and> distinct (map fst word_times')"
  using assms
proof (induction rest arbitrary: i timestamps word_times)
  case Nil
  then show ?case by auto
next
  case (Cons word rest)
  from Cons.prems(1) obtain st1 where
    step: "scan_step ratio search_words chunk_start_time chunk_length_ms fuzzy_match cutoff n i word
             (timestamps, word_times) = Inr st1"
    and rest: "scan_tokens ratio search_words chunk_start_time chunk_length_ms fuzzy_match cutoff n (Suc i) rest
             st1 = Inr (timestamps', word_times')"
    by (auto split: sum.splits)
  obtain ts1 wt1 where st1: "st1 = (ts1, wt1)" by (cases st1)
  have "ts1 = map (\<lambda>(w, ts). (w, map milliseconds_to_hms ts)) wt1 \<and> distinct (map fst wt1)"
    using scan_step_result[OF step] st1 Cons.prems(2,3)
    by (auto simp: record_occurrence_def dict_append_map_values dict_append_distinct
        split: option.splits)
  then show ?case
    using Cons.IH[OF rest[unfolded st1]] by simp
qed

lemma attributed_indices_filter:
  "attributed_indices attr w i rest =
     map (\<lambda>j. i + j) (filter (\<lambda>j. attr (rest ! j) = Some w) [0..<length rest])"
proof (induction rest arbitrary: i)
  case Nil
  then show ?case by simp
next
  case (Cons word rest)
  have u: "[0..<length (word # rest)] = 0 # map Suc [0..<length rest]"
    by (simp add: upt_conv_Cons map_Suc_upt del: upt_Suc)
  have f: "filter (\<lambda>j. attr ((word # rest) ! j) = Some w) (map Suc [0..<length rest]) =
           map Suc (filter (\<lambda>j. attr (rest ! j) = Some w) [0..<length rest])"
    by (simp add: filter_map o_def)
  show ?case
    unfolding u by (simp add: f Cons.IH o_def del: upt_Suc)
qed

lemma word_time_mono:
  assumes "0 \<le> chunk_length_ms" "i \<le> j"
  shows "word_time chunk_start_time i n chunk_length_ms \<le> word_time chunk_start_time j n chunk_length_ms"
proof -
  have "(of_nat i :: rat) / of_nat n \<le> of_nat j / of_nat n"
    using assms(2) by (intro divide_right_mono) simp_all
  then have "(of_nat i / of_nat n) * (of_int chunk_length_ms :: rat)
      \<le> (of_nat j / of_nat n) * of_int chunk_length_ms"
    using assms(1) by (intro mult_right_mono) simp_all
  then show ?thesis by (simp add: word_time_def)
qed

subsection \<open>The phrase loops compute the greedy clusters\<close>

lemma py_min_nonempty: "xs \<noteq> [] \<Longrightarrow> py_min xs = Inr (Min (set xs))"
  by (simp add: py_min_def min_list_Min)

lemma clusters_Cons: "clusters (w # ws) = greedy_clusters [w] (snd w) ws"
  by (simp add: clusters_def)

lemma extend_phrase_greedy:
  assumes "\<forall>e\<in>set ws. snd e \<noteq> []" and "current_times \<noteq> []"
  shows "\<exists>k\<le>length ws.
           extend_phrase current_times concatenated min_time ws =
             Inr (concatenated @ concat (map (\<lambda>e. '' '' @ fst e) (take k ws)),
                  fold min (map (\<lambda>e. Min (set (snd e))) (take k ws)) min_time,
                  drop k ws)
         \<and> (\<forall>cluster. greedy_clusters cluster (Min (set current_times)) (map earliest ws) =
               (cluster @ map earliest (take k ws)) # clusters (map earliest (drop k ws)))"
  using assms
proof (induction ws arbitrary: current_times concatenated min_time)
  case Nil
  then show ?case by (simp add: clusters_def)
next
  case (Cons e ws)
  obtain next_word next_times where e: "e = (next_word, next_times)" by (cases e)
  have ne: "next_times \<noteq> []" using Cons.prems(1) e by simp
  let ?m = "Min (set next_times)"
  let ?ref = "Min (set current_times)"
  show ?case
  proof (cases "\<bar>?m - ?ref\<bar> \<le> 1000")
    case True
    from Cons.IH[of next_times "concatenated @ '' '' @ next_word" "min min_time ?m"] Cons.prems(1) ne
    obtain k where k: "k \<le> length ws"
      "extend_phrase next_times (concatenated @ '' '' @ next_word) (min min_time ?m) ws =
         Inr ((concatenated @ '' '' @ next_word) @ concat (map (\<lambda>e. '' '' @ fst e) (take k ws)),
              fold min (map (\<lambda>e. Min (set (snd e))) (take k ws)) (min min_time ?m),
              drop k ws)"
      "\<forall>cluster. greedy_clusters cluster ?m (map earliest ws) =
               (cluster @ map earliest (take k ws)) # clusters (map earliest (drop k ws))"
      by auto
    have "extend_phrase current_times concatenated min_time (e # ws) =
             Inr (concatenated @ concat (map (\<lambda>e. '' '' @ fst e) (take (Suc k) (e # ws))),
                  fold min (map (\<lambda>e. Min (set (snd e))) (take (Suc k) (e # ws))) min_time,
                  drop (Suc k) (e # ws))"
      using True k(2) ne Cons.prems(2) unfolding e
      by (simp add: py_min_nonempty min.commute)
    moreover have "\<forall>cluster. greedy_clusters cluster ?ref (map earliest (e # ws)) =
               (cluster @ map earliest (take (Suc k) (e # ws))) # clusters (map earliest (drop (Suc k) (e # ws)))"
      using True k(3) unfolding e by (simp add: earliest_def)
    ultimately show ?thesis using k(1) by (intro exI[of _ "Suc k"]) simp
  next
    case False
    have "extend_phrase current_times concatenated min_time (e # ws) =
             Inr (concatenated @ concat (map (\<lambda>e. '' '' @ fst e) (take 0 (e # ws))),
                  fold min (map (\<lambda>e. Min (set (snd e))) (take 0 (e # ws))) min_time,
                  drop 0 (e # ws))"
      using False ne Cons.prems(2) unfolding e by (simp add: py_min_nonempty)
    moreover have "\<forall>cluster. greedy_clusters cluster ?ref (map earliest (e # ws)) =
               (cluster @ map earliest (take 0 (e # ws))) # clusters (map earliest (drop 0 (e # ws)))"
      using False unfolding e by (simp add: earliest_def clusters_def)
    ultimately show ?thesis by (intro exI[of _ 0]) simp
  qed
qed

lemma fold_min_Min: "fold min xs (a :: rat) = Min (set (a # xs))"
  by (simp only: Min.set_eq_fold)

lemma spec_phrases_Nil: "spec_phrases [] = []"
  by (simp add: spec_phrases_def clusters_def)

lemma spec_phrases_single: "spec_phrases [w] = []"
  by (simp add: spec_phrases_def clusters_def)

lemma assemble_phrases_greedy:
  assumes "\<forall>e\<in>set sorted_words. snd e \<noteq> []"
  shows "assemble_phrases sorted_words =
           Inr (map fst (spec_phrases (map earliest sorted_words)),
                map snd (spec_phrases (map earliest sorted_words)))"
  using assms
proof (induction sorted_words rule: length_induct)
  case (1 L)
  show ?case
  proof (cases L)
    case Nil
    then show ?thesis by (simp add: spec_phrases_Nil)
  next
    case (Cons x L1)
    note L = Cons
    show ?thesis
    proof (cases L1)
      case Nil
      then show ?thesis using L by (simp add: spec_phrases_single)
    next
      case (Cons y rest)
      obtain current_word current_times where x: "x = (current_word, current_times)" by (cases x)
      have ne: "current_times \<noteq> []" using "1.prems" L x by simp
      have ws: "\<forall>e\<in>set L1. snd e \<noteq> []" using "1.prems" L by simp
      let ?ref = "Min (set current_times)"
      from extend_phrase_greedy[OF ws ne, of current_word ?ref]
      obtain k where k: "k \<le> length L1"
        "extend_phrase current_times current_word ?ref L1 =
           Inr (current_word @ concat (map (\<lambda>e. '' '' @ fst e) (take k L1)),
                fold min (map (\<lambda>e. Min (set (snd e))) (take k L1)) ?ref,
                drop k L1)"
        "\<forall>cluster. greedy_clusters cluster ?ref (map earliest L1) =
               (cluster @ map earliest (take k L1)) # clusters (map earliest (drop k L1))"
        by blast
      let ?c = "earliest x # map earliest (take k L1)"
      have cl: "clusters (map earliest L) = ?c # clusters (map earliest (drop k L1))"
        using k(3) unfolding L by (simp add: clusters_Cons earliest_def x)
      have "length (drop k L1) < length L" unfolding L by simp
      moreover have "\<forall>e\<in>set (drop k L1). snd e \<noteq> []"
        using ws by (meson in_set_dropD)
      ultimately have IH: "assemble_phrases (drop k L1) =
           Inr (map fst (spec_phrases (map earliest (drop k L1))),
                map snd (spec_phrases (map earliest (drop k L1))))"
        using "1.IH" by blast
      define conc where "conc = current_word @ concat (map (\<lambda>e. '' '' @ fst e) (take k L1))"
      define mt where "mt = fold min (map (\<lambda>e. Min (set (snd e))) (take k L1)) ?ref"
      define P where "P = spec_phrases (map earliest (drop k L1))"
      define c where "c = ?c"
      have ptext: "phrase_text (map fst c) = conc"
        by (simp add: c_def conc_def phrase_text_def earliest_def x o_def)
      have tm: "Min (set (map snd c)) = mt"
        unfolding mt_def fold_min_Min by (simp add: c_def earliest_def x o_def)
      have po: "phrase_of c = (conc, milliseconds_to_hms mt)"
        by (simp only: phrase_of_def ptext tm)
      have neq: "(conc \<noteq> current_word) = (2 \<le> length c)"
      proof (cases k)
        case 0
        then show ?thesis by (simp add: conc_def c_def)
      next
        case (Suc k')
        then show ?thesis using Cons by (simp add: conc_def c_def)
      qed
      have sp: "spec_phrases (map earliest L) = (if 2 \<le> length c then [phrase_of c] else []) @ P"
        unfolding spec_phrases_def cl P_def c_def by simp
      have main: "assemble_phrases L =
              (if conc \<noteq> current_word
               then Inr (conc # map fst P, milliseconds_to_hms mt # map snd P)
               else Inr (map fst P, map snd P))"
        unfolding L Cons x conc_def mt_def P_def
        using k(2)[unfolded Cons] IH[unfolded Cons] ne
        by (simp add: py_min_nonempty)
      show ?thesis
      proof (cases "2 \<le> length c")
        case True
        then show ?thesis by (simp only: main sp neq po if_True) simp
      next
        case False
        then show ?thesis by (simp only: main sp neq if_False) simp
      qed
    qed
  qed
qed

lemma scan_tokens_nonempty:
  assumes "scan_tokens ratio search_words chunk_start_time chunk_length_ms fuzzy_match cutoff n 0 words
             ([], []) = Inr (timestamps, word_times)"
    and "e \<in> set word_times"
  shows "snd e \<noteq> []"
proof -
  obtain w xs where e: "e = (w, xs)" by (cases e)
  have "distinct (map fst word_times)"
    using scan_tokens_timestamps[OF assms(1)] by simp
  then have "map_of word_times w = Some xs"
    using assms(2) e by simp
  then show ?thesis
    using scan_tokens_word_times[OF assms(1), of w] e
    by (auto simp: extend_entry_def split: if_splits)
qed

lemma search_phrases_spec:
  assumes "scan_tokens ratio (map str_lower search_words) chunk_start_time chunk_length_ms fuzzy_match
             cutoff (length (str_split (str_lower transcript))) 0 (str_split (str_lower transcript))
             ([], []) = Inr (timestamps, word_times)"
  shows "search_word_in_transcript ratio transcript search_words chunk_start_time chunk_length_ms
           fuzzy_match cutoff =
         Inr (timestamps, map fst (spec_phrases (earliest_times word_times)),
              map snd (spec_phrases (earliest_times word_times)))"
proof -
  have "\<forall>e\<in>set (sort_key sort_time word_times). snd e \<noteq> []"
    using scan_tokens_nonempty[OF assms] by simp
  from assemble_phrases_greedy[OF this] show ?thesis
    using assms by (simp add: search_word_in_transcript_def Let_def earliest_times_def)
qed

lemma chained_snoc:
  "chained (c @ [w]) = (chained c \<and> (c \<noteq> [] \<longrightarrow> \<bar>snd w - snd (last c)\<bar> \<le> 1000))"
  by (induction c rule: chained.induct) auto

lemma greedy_clusters_chained:
  assumes "chained cluster" "cluster \<noteq> []" "reference = snd (last cluster)"
  shows "\<forall>c\<in>set (greedy_clusters cluster reference ws). chained c \<and> c \<noteq> []"
  using assms
proof (induction ws arbitrary: cluster reference)
  case Nil
  then show ?case by simp
next
  case (Cons w ws)
  show ?case
  proof (cases "\<bar>snd w - reference\<bar> \<le> 1000")
    case True
    have "\<forall>c\<in>set (greedy_clusters (cluster @ [w]) (snd w) ws). chained c \<and> c \<noteq> []"
      using Cons.prems True by (intro Cons.IH) (simp_all add: chained_snoc)
    with True show ?thesis by simp
  next
    case False
    have "\<forall>c\<in>set (greedy_clusters [w] (snd w) ws). chained c \<and> c \<noteq> []"
      by (intro Cons.IH) simp_all
    with False Cons.prems show ?thesis by simp
  qed
qed

lemma clusters_chained: "c \<in> set (clusters ws) \<Longrightarrow> chained c \<and> c \<noteq> []"
proof (cases ws)
  case Nil
  then show "c \<in> set (clusters ws) \<Longrightarrow> chained c \<and> c \<noteq> []" by (simp add: clusters_def)
next
  case (Cons w ws')
  then show "c \<in> set (clusters ws) \<Longrightarrow> chained c \<and> c \<noteq> []"
    using greedy_clusters_chained[of "[w]" "snd w" ws'] by (simp add: clusters_Cons)
qed

lemma greedy_clusters_concat:
  "concat (greedy_clusters cluster reference ws) = cluster @ ws"
  by (induction ws arbitrary: cluster reference) auto

lemma greedy_clusters_close:
  assumes "sorted (map snd (cluster @ ws))" "cluster \<noteq> []" "reference = snd (last cluster)"
    and "p \<in> set (cluster @ ws)" "q \<in> set (cluster @ ws)" "\<bar>snd p - snd q\<bar> \<le> 1000"
  shows "\<exists>c\<in>set (greedy_clusters cluster reference ws). p \<in> set c \<and> q \<in> set c"
  using assms
proof (induction ws arbitrary: cluster reference)
  case Nil
  then show ?case by simp
next
  case (Cons w ws)
  show ?case
  proof (cases "\<bar>snd w - reference\<bar> \<le> 1000")
    case True
    have "\<exists>c\<in>set (greedy_clusters (cluster @ [w]) (snd w) ws). p \<in> set c \<and> q \<in> set c"
      using Cons.prems by (intro Cons.IH) simp_all
    with True show ?thesis by simp
  next
    case False
    have srt: "sorted (map snd cluster)" "sorted (map snd (w # ws))"
      and cross: "\<forall>a\<in>set cluster. \<forall>b\<in>set (w # ws). snd a \<le> snd b"
      using Cons.prems(1) by (auto simp: sorted_append)
    have lastc: "last cluster \<in> set cluster" using Cons.prems(2) by simp
    have upper: "snd a \<le> reference" if "a \<in> set cluster" for a
    proof -
      have "snd a \<in> set (map snd cluster)" using that by simp
      then have "snd a \<le> last (map snd cluster)"
        using sorted_le_last[OF srt(1)] by blast
      then show ?thesis using Cons.prems(2,3) by (simp add: last_map)
    qed
    have lower: "snd w \<le> snd b" if "b \<in> set (w # ws)" for b
      using srt(2) that by auto
    have gap: "reference + 1000 < snd w"
      using False cross lastc Cons.prems(3) by fastforce
    have far: "\<not> \<bar>snd a - snd b\<bar> \<le> 1000" if "a \<in> set cluster" "b \<in> set (w # ws)" for a b
      using upper[OF that(1)] lower[OF that(2)] gap by linarith
    consider (cc) "p \<in> set cluster" "q \<in> set cluster"
      | (ww) "p \<in> set (w # ws)" "q \<in> set (w # ws)"
      | (cw) "p \<in> set cluster" "q \<in> set (w # ws)"
      | (wc) "p \<in> set (w # ws)" "q \<in> set cluster"
      using Cons.prems(4,5) by auto
    then show ?thesis
    proof cases
      case cc
      then show ?thesis using False by simp
    next
      case ww
      have "\<exists>c\<in>set (greedy_clusters [w] (snd w) ws). p \<in> set c \<and> q \<in> set c"
        using srt(2) ww Cons.prems(6) by (intro Cons.IH) simp_all
      then show ?thesis using False by simp
    next
      case cw
      then show ?thesis using far Cons.prems(6) by blast
    next
      case wc
      then have "\<not> \<bar>snd q - snd p\<bar> \<le> 1000" using far by blast
      then show ?thesis using Cons.prems(6) by (simp add: abs_minus_commute)
    qed
  qed
qed

lemma clusters_close:
  assumes "sorted (map snd ws)" "p \<in> set ws" "q \<in> set ws" "\<bar>snd p - snd q\<bar> \<le> 1000"
  shows "\<exists>c\<in>set (clusters ws). p \<in> set c \<and> q \<in> set c"
proof (cases ws)
  case Nil
  then show ?thesis using assms by simp
next
  case (Cons w ws')
  have "\<exists>c\<in>set (greedy_clusters [w] (snd w) ws'). p \<in> set c \<and> q \<in> set c"
    using assms unfolding Cons by (intro greedy_clusters_close) simp_all
  then show ?thesis unfolding Cons clusters_Cons .
qed

lemma sorted_tagged:
  "sorted (map (\<lambda>e. (False, f e :: rat)) xs) \<Longrightarrow> sorted (map f xs)"
  by (induction xs) (auto simp: less_eq_prod_def)

lemma sorted_earliest_times:
  assumes "\<forall>e\<in>set word_times. snd e \<noteq> []"
  shows "sorted (map snd (earliest_times word_times))"
proof -
  let ?L = "sort_key sort_time word_times"
  have s: "sorted (map sort_time ?L)" by (rule sorted_sort_key)
  have eq: "map sort_time ?L = map (\<lambda>e. (False, snd (earliest e))) ?L"
    using assms by (auto simp: sort_time_def earliest_def min_list_Min)
  have "sorted (map (\<lambda>e. (False, snd (earliest e))) ?L)"
    using s unfolding eq .
  then have "sorted (map (\<lambda>e. snd (earliest e)) ?L)"
    by (rule sorted_tagged)
  then show ?thesis by (simp add: earliest_times_def o_def)
qed

subsection \<open>Merging the windows\<close>

lemma merge_word_timestamps_map_of:
  "distinct (map fst word_timestamps) \<Longrightarrow>
   map_of (merge_word_timestamps timestamps word_timestamps) word =
     (case map_of word_timestamps word of
        None \<Rightarrow> map_of timestamps word
      | Some time_list \<Rightarrow> Some ((case map_of timestamps word of None \<Rightarrow> [] | Some old \<Rightarrow> old) @ time_list))"
proof (induction word_timestamps arbitrary: timestamps)
  case Nil
  then show ?case by simp
next
  case (Cons e rest)
  obtain w time_list where e: "e = (w, time_list)" by (cases e)
  let ?ts1 = "if w \<in> fst ` set timestamps
        then map (\<lambda>(k, vs). if k = w then (k, vs @ time_list) else (k, vs)) timestamps
        else timestamps @ [(w, time_list)]"
  have step: "map_of ?ts1 k =
      (if k = w then Some ((case map_of timestamps w of None \<Rightarrow> [] | Some old \<Rightarrow> old) @ time_list)
       else map_of timestamps k)" for k
  proof (cases "w \<in> fst ` set timestamps")
    case True
    then obtain vs where vs: "map_of timestamps w = Some vs"
      by (metis map_of_eq_None_iff not_Some_eq)
    have f: "(\<lambda>(k, vs). if k = w then (k, vs @ time_list) else (k, vs)) =
        (\<lambda>(k, vs). (k, (\<lambda>k vs. if k = w then vs @ time_list else vs) k vs))"
      by auto
    show ?thesis
      using True vs by (simp only: if_True f map_of_map_keyed) (cases "map_of timestamps k"; auto)
  next
    case False
    then have "map_of timestamps w = None" by (simp add: map_of_eq_None_iff)
    with False show ?thesis
      by (auto simp: map_add_def split: option.splits)
  qed
  have rest: "distinct (map fst rest)" and notin: "map_of rest w = None"
    using Cons.prems e by (auto simp: map_of_eq_None_iff)
  show ?case
    unfolding e merge_word_timestamps.simps Cons.IH[OF rest] step
    using notin by (auto split: option.splits)
qed

lemma merge_phrases_map_of:
  "map_of (merge_phrases timestamps phrases) phrase =
     (case map_of timestamps phrase of
        Some old \<Rightarrow> Some old
      | None \<Rightarrow> map_option (\<lambda>time. [time]) (map_of phrases phrase))"
proof (induction phrases arbitrary: timestamps)
  case Nil
  then show ?case by (simp split: option.splits)
next
  case (Cons e rest)
  obtain c t where e: "e = (c, t)" by (cases e)
  show ?case
  proof (cases "c \<in> fst ` set timestamps")
    case True
    then obtain vs where "map_of timestamps c = Some vs"
      by (metis map_of_eq_None_iff not_Some_eq)
    with True show ?thesis
      unfolding e by (auto simp: Cons.IH split: option.splits)
  next
    case False
    then have "map_of timestamps c = None" by (simp add: map_of_eq_None_iff)
    with False show ?thesis
      unfolding e by (auto simp: Cons.IH map_add_def split: option.splits)
  qed
qed

lemma merge_word_timestamps_keys:
  "fst ` set (merge_word_timestamps timestamps word_timestamps) =
     fst ` set timestamps \<union> fst ` set word_timestamps"
proof (induction word_timestamps arbitrary: timestamps)
  case Nil
  then show ?case by simp
next
  case (Cons e rest)
  obtain w time_list where e: "e = (w, time_list)" by (cases e)
  have "fst ` set (map (\<lambda>(k, vs). if k = w then (k, vs @ time_list) else (k, vs)) timestamps)
          = fst ` set timestamps"
    by force
  then show ?case
    unfolding e by (auto simp: Cons.IH)
qed

lemma merge_phrases_keys:
  "fst ` set (merge_phrases timestamps phrases) = fst ` set timestamps \<union> fst ` set phrases"
proof (induction phrases arbitrary: timestamps)
  case Nil
  then show ?case by simp
next
  case (Cons e rest)
  obtain c t where e: "e = (c, t)" by (cases e)
  show ?case unfolding e by (auto simp: Cons.IH)
qed

lemma search_result_scan:
  assumes "search_word_in_transcript ratio transcript search_words chunk_start_time chunk_length_ms
             fuzzy_match cutoff = Inr (timestamps, concatenated_words, concatenated_times)"
  shows "\<exists>word_times.
           scan_tokens ratio (map str_lower search_words) chunk_start_time chunk_length_ms fuzzy_match
             cutoff (length (str_split (str_lower transcript))) 0 (str_split (str_lower transcript))
             ([], []) = Inr (timestamps, word_times)
         \<and> concatenated_words = map fst (spec_phrases (earliest_times word_times))
         \<and> concatenated_times = map snd (spec_phrases (earliest_times word_times))"
proof -
  from assms obtain ts wt where
    sc: "scan_tokens ratio (map str_lower search_words) chunk_start_time chunk_length_ms fuzzy_match
             cutoff (length (str_split (str_lower transcript))) 0 (str_split (str_lower transcript))
             ([], []) = Inr (ts, wt)"
    by (auto simp: search_word_in_transcript_def Let_def split: sum.splits)
  from search_phrases_spec[OF sc] assms sc show ?thesis by simp
qed

lemma clusters_concat: "concat (clusters ws) = ws"
  by (cases ws) (simp_all add: clusters_def greedy_clusters_concat)

lemma earliest_times_keys: "fst ` set (earliest_times word_times) = fst ` set word_times"
  by (force simp: earliest_times_def earliest_def)

lemma scan_tokens_keys:
  assumes "scan_tokens ratio search_words chunk_start_time chunk_length_ms fuzzy_match cutoff n 0 words
             ([], []) = Inr (timestamps, word_times)"
  shows "fst ` set timestamps = fst ` set word_times"
proof -
  have "timestamps = map (\<lambda>(w, ts). (w, map milliseconds_to_hms ts)) word_times"
    using scan_tokens_timestamps[OF assms] by simp
  then show ?thesis by force
qed

lemma phrase_words_detected:
  assumes "search_word_in_transcript ratio transcript search_words chunk_start_time chunk_length_ms
             fuzzy_match cutoff = Inr (timestamps, concatenated_words, concatenated_times)"
    and "phrase \<in> set concatenated_words"
  shows "\<exists>ws. phrase = phrase_text ws \<and> 2 \<le> length ws \<and> set ws \<subseteq> fst ` set timestamps"
proof -
  from search_result_scan[OF assms(1)] obtain word_times where
    sc: "scan_tokens ratio (map str_lower search_words) chunk_start_time chunk_length_ms fuzzy_match
             cutoff (length (str_split (str_lower transcript))) 0 (str_split (str_lower transcript))
             ([], []) = Inr (timestamps, word_times)"
    and cw: "concatenated_words = map fst (spec_phrases (earliest_times word_times))"
    by blast
  from assms(2) obtain c where c: "c \<in> set (clusters (earliest_times word_times))" "2 \<le> length c"
      "phrase = phrase_text (map fst c)"
    unfolding cw spec_phrases_def by (auto simp: phrase_of_def)
  have "set c \<subseteq> set (concat (clusters (earliest_times word_times)))"
    using c(1) by auto
  then have "set c \<subseteq> set (earliest_times word_times)"
    by (simp only: clusters_concat)
  then have "fst ` set c \<subseteq> fst ` set timestamps"
    using earliest_times_keys[of word_times] scan_tokens_keys[OF sc] by blast
  then show ?thesis
    using c(2,3) by (intro exI[of _ "map fst c"]) simp
qed

lemma search_result_lengths:
  assumes "search_word_in_transcript ratio transcript search_words chunk_start_time chunk_length_ms
             fuzzy_match cutoff = Inr (timestamps, concatenated_words, concatenated_times)"
  shows "length concatenated_words = length concatenated_times"
  using search_result_scan[OF assms] by auto

lemma process_chunks_keys:
  assumes "process_chunks ratio search_words fuzzy_match cutoff i texts timestamps0 = Inr timestamps"
    and "key \<in> fst ` set timestamps"
  shows "key \<in> fst ` set timestamps0 \<or>
         (\<exists>j<length texts. \<exists>word_timestamps concatenated_words concatenated_times.
            search_word_in_transcript ratio (texts ! j) search_words (int (i + j) * (15000 - 3000)) 15000
              fuzzy_match cutoff = Inr (word_timestamps, concatenated_words, concatenated_times)
            \<and> (key \<in> fst ` set word_timestamps \<or> key \<in> set concatenated_words))"
  using assms
proof (induction texts arbitrary: i timestamps0)
  case Nil
  then show ?case by simp
next
  case (Cons transcript rest)
  from Cons.prems(1) obtain wts cw ct where
    sr: "search_word_in_transcript ratio transcript search_words (int i * (15000 - 3000)) 15000
           fuzzy_match cutoff = Inr (wts, cw, ct)"
    and pr: "process_chunks ratio search_words fuzzy_match cutoff (Suc i) rest
               (merge_phrases (merge_word_timestamps timestamps0 wts) (zip cw ct)) = Inr timestamps"
    by (auto split: sum.splits)
  have len: "length cw = length ct" using search_result_lengths[OF sr] .
  from Cons.IH[OF pr Cons.prems(2)]
  consider (old) "key \<in> fst ` set (merge_phrases (merge_word_timestamps timestamps0 wts) (zip cw ct))"
    | (later) j T cws cts where "j < length rest"
        "search_word_in_transcript ratio (rest ! j) search_words (int (Suc i + j) * (15000 - 3000)) 15000
              fuzzy_match cutoff = Inr (T, cws, cts)"
        "key \<in> fst ` set T \<or> key \<in> set cws"
    by blast
  then show ?case
  proof cases
    case old
    then have "key \<in> fst ` set timestamps0 \<or> key \<in> fst ` set wts \<or> key \<in> set cw"
      using len by (auto simp: merge_phrases_keys merge_word_timestamps_keys dest: set_zip_leftD)
    then show ?thesis
    proof (elim disjE)
      assume "key \<in> fst ` set timestamps0"
      then show ?thesis by simp
    next
      assume "key \<in> fst ` set wts"
      then show ?thesis using sr by (intro disjI2 exI[of _ 0]) simp
    next
      assume "key \<in> set cw"
      then show ?thesis using sr by (intro disjI2 exI[of _ 0]) simp
    qed
  next
    case later
    then show ?thesis by (intro disjI2 exI[of _ "Suc j"]) simp
  qed
qed

lemma split_from_no_space:
  assumes "\<forall>c\<in>set cur. \<not> is_space c" "token \<in> set (split_from cur s)"
  shows "\<forall>c\<in>set token. \<not> is_space c"
  using assms
proof (induction s arbitrary: cur)
  case Nil
  then show ?case by (auto split: if_splits)
next
  case (Cons c cs)
  show ?case
  proof (cases "is_space c")
    case True
    then have "token = cur \<or> token \<in> set (split_from [] cs)"
      using Cons.prems(2) by (auto split: if_splits)
    then show ?thesis
      using Cons.prems(1) Cons.IH[of "[]"] by auto
  next
    case False
    then have t: "token \<in> set (split_from (cur @ [c]) cs)"
      using Cons.prems(2) by simp
    have "\<forall>d\<in>set (cur @ [c]). \<not> is_space d"
      using Cons.prems(1) False by auto
    from Cons.IH[OF this t] show ?thesis .
  qed
qed

lemma str_split_no_space: "token \<in> set (str_split s) \<Longrightarrow> CHR '' '' \<notin> set token"
proof -
  assume "token \<in> set (str_split s)"
  then have t: "token \<in> set (split_from [] s)" by (simp add: str_split_def)
  have "\<forall>c\<in>set []. \<not> is_space c" by simp
  from split_from_no_space[OF this t] have "\<forall>c\<in>set token. \<not> is_space c" .
  moreover have "is_space CHR '' ''" by (simp add: is_space_def whitespace_chars_def)
  ultimately show ?thesis by blast
qed

lemma lower_char_space: "lower_char c = CHR '' '' \<Longrightarrow> c = CHR '' ''"
proof -
  assume a: "lower_char c = CHR '' ''"
  show ?thesis
  proof (cases "map_of (zip upper_chars lower_chars) c")
    case None
    with a show ?thesis by (simp add: lower_char_def)
  next
    case (Some d)
    then have "d \<in> set lower_chars"
      by (meson map_of_SomeD set_zip_rightD)
    moreover have "d = CHR '' ''" using a Some by (simp add: lower_char_def)
    ultimately show ?thesis by (simp add: lower_chars_def)
  qed
qed

lemma str_lower_no_space: "CHR '' '' \<notin> set w \<Longrightarrow> CHR '' '' \<notin> set (str_lower w)"
proof
  assume a: "CHR '' '' \<notin> set w" and b: "CHR '' '' \<in> set (str_lower w)"
  from b obtain c where c: "c \<in> set w" "lower_char c = CHR '' ''"
    by (auto simp: str_lower_def)
  from lower_char_space[OF c(2)] c(1) a show False by simp
qed

lemma get_close_matches_subset:
  "get_close_matches ratio word possibilities n cutoff = Inr found \<Longrightarrow> set found \<subseteq> set possibilities"
proof -
  assume a: "get_close_matches ratio word possibilities n cutoff = Inr found"
  let ?cands = "map (\<lambda>x. (ratio x word, x)) (filter (\<lambda>x. cutoff \<le> ratio x word) possibilities)"
  have "found = map snd (nlargest n ?cands)"
    using a by (auto simp: get_close_matches_def split: if_splits)
  moreover have "set (nlargest n ?cands) \<subseteq> set ?cands"
    unfolding nlargest_def using set_take_subset[of "nat n" "rev (sort ?cands)"] by simp
  ultimately show ?thesis by auto
qed

lemma attribution_range:
  "attribution ratio search_words fuzzy_match cutoff word = Some key \<Longrightarrow>
     key = word \<or> key \<in> set search_words"
  using get_close_matches_subset[of ratio word search_words 1 cutoff]
  by (auto simp: attribution_def split: if_splits sum.splits list.splits)

lemma attributed_indices_source:
  "attributed_indices attr w i words \<noteq> [] \<Longrightarrow> \<exists>word\<in>set words. attr word = Some w"
  by (induction words arbitrary: i) (auto split: if_splits)

lemma scan_tokens_key_source:
  assumes "scan_tokens ratio search_words chunk_start_time chunk_length_ms fuzzy_match cutoff n 0 words
             ([], []) = Inr (timestamps, word_times)"
    and "key \<in> fst ` set timestamps"
  shows "key \<in> set words \<or> key \<in> set search_words"
proof -
  have "key \<in> fst ` set word_times" using scan_tokens_keys[OF assms(1)] assms(2) by simp
  then have "map_of word_times key \<noteq> None" by (simp add: map_of_eq_None_iff)
  then have "attributed_indices (attribution ratio search_words fuzzy_match cutoff) key 0 words \<noteq> []"
    using scan_tokens_word_times[OF assms(1), of key] by (auto simp: extend_entry_def)
  then obtain word where "word \<in> set words"
      "attribution ratio search_words fuzzy_match cutoff word = Some key"
    using attributed_indices_source by blast
  then show ?thesis using attribution_range by blast
qed

lemma word_keys_no_space:
  assumes "search_word_in_transcript ratio transcript search_words chunk_start_time chunk_length_ms
             fuzzy_match cutoff = Inr (timestamps, concatenated_words, concatenated_times)"
    and "\<forall>w\<in>set search_words. CHR '' '' \<notin> set w"
    and "key \<in> fst ` set timestamps"
  shows "CHR '' '' \<notin> set key"
proof -
  from search_result_scan[OF assms(1)] obtain word_times where
    sc: "scan_tokens ratio (map str_lower search_words) chunk_start_time chunk_length_ms fuzzy_match
             cutoff (length (str_split (str_lower transcript))) 0 (str_split (str_lower transcript))
             ([], []) = Inr (timestamps, word_times)"
    by blast
  from scan_tokens_key_source[OF sc assms(3)]
  show ?thesis
  proof
    assume "key \<in> set (str_split (str_lower transcript))"
    then show ?thesis by (rule str_split_no_space)
  next
    assume "key \<in> set (map str_lower search_words)"
    then show ?thesis using assms(2) str_lower_no_space by auto
  qed
qed

lemma process_chunks_phrase:
  assumes "process_chunks ratio search_words fuzzy_match cutoff i texts timestamps0 = Inr timestamps"
    and "\<forall>w\<in>set search_words. CHR '' '' \<notin> set w"
    and "CHR '' '' \<in> set phrase"
  shows "map_of timestamps phrase =
           (case map_of timestamps0 phrase of
              Some old \<Rightarrow> Some old
            | None \<Rightarrow> map_option (\<lambda>time. [time])
                        (first_phrase_time ratio search_words fuzzy_match cutoff i texts phrase))"
  using assms(1)
proof (induction texts arbitrary: i timestamps0)
  case Nil
  then show ?case by (auto split: option.splits)
next
  case (Cons transcript rest)
  from Cons.prems(1) obtain wts cw ct where
    sr: "search_word_in_transcript ratio transcript search_words (int i * (15000 - 3000)) 15000
           fuzzy_match cutoff = Inr (wts, cw, ct)"
    and pr: "process_chunks ratio search_words fuzzy_match cutoff (Suc i) rest
               (merge_phrases (merge_word_timestamps timestamps0 wts) (zip cw ct)) = Inr timestamps"
    by (auto split: sum.splits)
  have "phrase \<notin> fst ` set wts"
    using word_keys_no_space[OF sr assms(2)] assms(3) by blast
  then have nw: "map_of wts phrase = None" by (simp add: map_of_eq_None_iff)
  have dist: "distinct (map fst wts)"
  proof -
    from search_result_scan[OF sr] obtain word_times where
      sc: "scan_tokens ratio (map str_lower search_words) (int i * (15000 - 3000)) 15000 fuzzy_match
             cutoff (length (str_split (str_lower transcript))) 0 (str_split (str_lower transcript))
             ([], []) = Inr (wts, word_times)"
      by blast
    have "wts = map (\<lambda>(w, ts). (w, map milliseconds_to_hms ts)) word_times"
         "distinct (map fst word_times)"
      using scan_tokens_timestamps[OF sc] by simp_all
    then show ?thesis by (simp add: case_prod_unfold o_def)
  qed
  have m: "map_of (merge_phrases (merge_word_timestamps timestamps0 wts) (zip cw ct)) phrase =
      (case map_of timestamps0 phrase of
         Some old \<Rightarrow> Some old
       | None \<Rightarrow> map_option (\<lambda>time. [time]) (map_of (zip cw ct) phrase))"
    by (simp add: merge_phrases_map_of merge_word_timestamps_map_of[OF dist] nw)
  show ?case
    unfolding Cons.IH[OF pr] m using sr
    by (auto split: option.splits)
qed

subsection \<open>The segmentation loop, iteration by iteration\<close>

lemma split_audio_iter_exit:
  "split_audio_iter k audio_len chunk_length_ms (start, chunks) = (s, r) \<Longrightarrow> \<not> s < audio_len
     \<Longrightarrow> split_audio_loop audio_len chunk_length_ms start chunks = Some r"
proof (induction k arbitrary: start chunks)
  case 0
  then show ?case by (subst split_audio_loop.simps) simp
next
  case (Suc k)
  show ?case
  proof (cases "start < audio_len")
    case True
    then have "split_audio_iter k audio_len chunk_length_ms
             (start + (chunk_length_ms - overlap), chunks @ [(start, start + chunk_length_ms)]) = (s, r)"
      using Suc.prems(1) by simp
    from Suc.IH[OF this Suc.prems(2)] True show ?thesis
      by (subst split_audio_loop.simps) simp
  next
    case False
    then show ?thesis using Suc.prems(1)
      by (subst split_audio_loop.simps) simp
  qed
qed

lemma split_audio_loop_exit:
  assumes "split_audio_loop audio_len chunk_length_ms start chunks = Some r"
  shows "\<exists>k s. split_audio_iter k audio_len chunk_length_ms (start, chunks) = (s, r) \<and> \<not> s < audio_len"
proof (rule split_audio_loop.raw_induct
    [where P = "\<lambda>a c s ch r. \<exists>k s'. split_audio_iter k a c (s, ch) = (s', r) \<and> \<not> s' < a", OF _ assms])
  fix loop a c s ch r
  assume IH: "\<And>a c s ch r. loop a c s ch = Some r \<Longrightarrow>
                \<exists>k s'. split_audio_iter k a c (s, ch) = (s', r) \<and> \<not> s' < a"
    and body: "(if s < a then loop a c (s + (c - overlap)) (ch @ [(s, s + c)]) else Some ch) = Some r"
  show "\<exists>k s'. split_audio_iter k a c (s, ch) = (s', r) \<and> \<not> s' < a"
  proof (cases "s < a")
    case True
    then have "loop a c (s + (c - overlap)) (ch @ [(s, s + c)]) = Some r" using body by simp
    from IH[OF this] obtain k s' where
      "split_audio_iter k a c (s + (c - overlap), ch @ [(s, s + c)]) = (s', r)" "\<not> s' < a" by blast
    then have "split_audio_iter (Suc k) a c (s, ch) = (s', r) \<and> \<not> s' < a" using True by simp
    then show ?thesis by blast
  next
    case False
    then have "split_audio_iter 0 a c (s, ch) = (s, r) \<and> \<not> s < a" using body by simp
    then show ?thesis by blast
  qed
qed

lemma split_audio_iter_stuck:
  "0 < audio_len \<Longrightarrow>
   split_audio_iter k audio_len overlap (0, chunks) = (0, chunks @ replicate k (0, overlap))"
proof (induction k arbitrary: chunks)
  case 0
  then show ?case by simp
next
  case (Suc k)
  then show ?case by (simp add: replicate_app_Cons_same)
qed

subsection \<open>The loop's attribution is the specification's\<close>

lemma get_close_matches_invalid:
  "\<not> (0 \<le> cutoff \<and> cutoff \<le> 1) \<Longrightarrow>
     get_close_matches ratio word possibilities 1 cutoff = Inl ValueError"
  by (simp add: get_close_matches_def)

lemma scan_step_invalid_cutoff:
  "word \<notin> set search_words \<Longrightarrow> fuzzy_match \<Longrightarrow> \<not> (0 \<le> cutoff \<and> cutoff \<le> 1) \<Longrightarrow>
     scan_step ratio search_words chunk_start_time chunk_length_ms fuzzy_match cutoff n i word st =
       Inl ValueError"
  using get_close_matches_invalid[of cutoff ratio word search_words]
  by (simp add: scan_step_def)

lemma nlargest_one_Max:
  assumes "xs \<noteq> []"
  shows "nlargest 1 xs = [Max (set xs)]"
proof -
  from nlargest_one[OF assms] obtain b where
    b: "nlargest 1 xs = [b]" "b \<in> set xs" "\<forall>y\<in>set xs. y \<le> b" by blast
  have "Max (set xs) = b"
    using b(2,3) by (intro Max_eqI) simp_all
  with b(1) show ?thesis by simp
qed

lemma attribution_spec:
  assumes "fuzzy_match \<longrightarrow> 0 \<le> cutoff \<and> cutoff \<le> 1"
  shows "attribution ratio terms fuzzy_match cutoff token =
         spec_attribution ratio terms fuzzy_match cutoff token"
proof (cases "token \<in> set terms \<or> \<not> fuzzy_match")
  case True
  then show ?thesis by (auto simp: attribution_def spec_attribution_def)
next
  case False
  then have nt: "token \<notin> set terms" and fz: fuzzy_match by simp_all
  have valid: "0 \<le> cutoff" "cutoff \<le> 1" using assms fz by simp_all
  let ?all = "map (\<lambda>x. (ratio x token, x)) terms"
  let ?cands = "map (\<lambda>x. (ratio x token, x)) (filter (\<lambda>x. cutoff \<le> ratio x token) terms)"
  have gcm: "get_close_matches ratio token terms 1 cutoff = Inr (map snd (nlargest 1 ?cands))"
    using valid by (simp add: get_close_matches_def)
  show ?thesis
  proof (cases "?cands = []")
    case True
    then have below: "\<forall>x\<in>set terms. ratio x token < cutoff"
      by (auto simp: filter_empty_conv)
    have a: "attribution ratio terms fuzzy_match cutoff token = None"
      using nt fz gcm True by (simp add: attribution_def nlargest_one_Nil)
    have "spec_attribution ratio terms fuzzy_match cutoff token = None"
    proof (cases "terms = []")
      case True
      then show ?thesis using nt fz by (simp add: spec_attribution_def best_match_def)
    next
      case ne: False
      then have "Max (set ?all) \<in> set ?all" by (intro Max_in) simp_all
      then have "snd (Max (set ?all)) \<in> set terms" by auto
      then have "ratio (snd (Max (set ?all))) token < cutoff" using below by blast
      then show ?thesis
        using nt fz ne by (simp add: spec_attribution_def best_match_def)
    qed
    with a show ?thesis by simp
  next
    case False
    then have ne: "terms \<noteq> []" by auto
    let ?b = "Max (set ?cands)"
    let ?m = "Max (set ?all)"
    have bin: "?b \<in> set ?cands" using False by (intro Max_in) (auto simp: filter_empty_conv)
    then obtain c where c: "?b = (ratio c token, c)" "c \<in> set terms" "cutoff \<le> ratio c token"
      by auto
    have min: "?m \<in> set ?all" using ne by (intro Max_in) simp_all
    then obtain m where m: "?m = (ratio m token, m)" "m \<in> set terms" by auto
    have "?b \<in> set ?all" using c by auto
    then have "?b \<le> ?m" by (intro Max_ge) simp_all
    then have "ratio c token \<le> ratio m token"
      unfolding c(1) m(1) by (auto simp: less_eq_prod_def)
    then have "cutoff \<le> ratio m token" using c(3) by simp
    then have "?m \<in> set ?cands" using m by auto
    then have "?m \<le> ?b" by (intro Max_ge) simp_all
    with \<open>?b \<le> ?m\<close> have eq: "?m = ?b" by simp
    have a: "attribution ratio terms fuzzy_match cutoff token = Some c"
      using nt fz gcm nlargest_one_Max[OF False] c(1) by (simp add: attribution_def)
    have "best_match ratio terms token = Some c"
      using ne eq c(1) by (simp add: best_match_def)
    then have "spec_attribution ratio terms fuzzy_match cutoff token = Some c"
      using nt fz c(3) by (simp add: spec_attribution_def)
    with a show ?thesis by simp
  qed
qed

lemma scan_step_returns:
  assumes "fuzzy_match \<longrightarrow> 0 \<le> cutoff \<and> cutoff \<le> 1"
  shows "\<exists>st'. scan_step ratio search_words chunk_start_time chunk_length_ms fuzzy_match cutoff n i word st
           = Inr st'"
  using assms
  by (auto simp: scan_step_def get_close_matches_def split: list.splits)

lemma scan_tokens_returns:
  assumes "fuzzy_match \<longrightarrow> 0 \<le> cutoff \<and> cutoff \<le> 1"
  shows "\<exists>st'. scan_tokens ratio search_words chunk_start_time chunk_length_ms fuzzy_match cutoff n i words st
           = Inr st'"
proof (induction words arbitrary: i st)
  case Nil
  then show ?case by simp
next
  case (Cons word rest)
  from scan_step_returns[OF assms] obtain st1 where
    "scan_step ratio search_words chunk_start_time chunk_length_ms fuzzy_match cutoff n i word st = Inr st1"
    by blast
  with Cons[of "Suc i" st1] show ?case by simp
qed

lemma lower_char_not_upper: "lower_char c \<notin> set upper_chars"
proof (cases "map_of (zip upper_chars lower_chars) c")
  case None
  then have "c \<notin> fst ` set (zip upper_chars lower_chars)"
    by (simp add: map_of_eq_None_iff)
  moreover have "fst ` set (zip upper_chars lower_chars) = set upper_chars"
    by (simp add: upper_chars_def lower_chars_def)
  ultimately show ?thesis using None by (simp add: lower_char_def)
next
  case (Some d)
  then have "d \<in> set lower_chars"
    by (meson map_of_SomeD set_zip_rightD)
  then have "d \<notin> set upper_chars"
    by (auto simp: lower_chars_def upper_chars_def)
  with Some show ?thesis by (simp add: lower_char_def)
qed

lemma str_lower_no_upper: "set (str_lower s) \<inter> set upper_chars = {}"
  using lower_char_not_upper by (auto simp: str_lower_def)

lemma split_from_chars:
  "token \<in> set (split_from cur s) \<Longrightarrow> set token \<subseteq> set cur \<union> set s"
proof (induction s arbitrary: cur)
  case Nil
  then show ?case by (auto split: if_splits)
next
  case (Cons c cs)
  show ?case
  proof (cases "is_space c")
    case True
    then have "token = cur \<or> token \<in> set (split_from [] cs)"
      using Cons.prems by (auto split: if_splits)
    then show ?thesis using Cons.IH[of "[]"] by auto
  next
    case False
    then have "token \<in> set (split_from (cur @ [c]) cs)" using Cons.prems by simp
    from Cons.IH[OF this] show ?thesis by auto
  qed
qed

lemma str_split_chars: "token \<in> set (str_split s) \<Longrightarrow> set token \<subseteq> set s"
  using split_from_chars[of token "[]" s] by (simp add: str_split_def)

subsection \<open>The timestamp map of a search\<close>

lemma search_attribution_valid:
  assumes "fuzzy_match \<longrightarrow> 0 \<le> cutoff \<and> cutoff \<le> 1"
  shows "\<exists>timestamps concatenated_words concatenated_times.
     search_word_in_transcript ratio transcript search_words chunk_start_time chunk_length_ms
       fuzzy_match cutoff = Inr (timestamps, concatenated_words, concatenated_times)
     \<and> (\<forall>w. map_of timestamps w =
          (let words = str_split (str_lower transcript);
               hits = filter (\<lambda>i. spec_attribution ratio (map str_lower search_words) fuzzy_match
                                    cutoff (words ! i) = Some w) [0..<length words]
           in if hits = [] then None
              else Some (map (\<lambda>i. milliseconds_to_hms
                                    (word_time chunk_start_time i (length words) chunk_length_ms)) hits)))
     \<and> distinct (map fst timestamps)
     \<and> (\<forall>w\<in>fst ` set timestamps. set w \<inter> set upper_chars = {})"
proof -
  let ?words = "str_split (str_lower transcript)"
  let ?terms = "map str_lower search_words"
  from scan_tokens_returns[OF assms] obtain st where
    "scan_tokens ratio ?terms chunk_start_time chunk_length_ms fuzzy_match cutoff
       (length ?words) 0 ?words ([], []) = Inr st"
    by blast
  then obtain T wt where
    sc: "scan_tokens ratio ?terms chunk_start_time chunk_length_ms fuzzy_match cutoff
       (length ?words) 0 ?words ([], []) = Inr (T, wt)"
    by (cases st) auto
  note sr = search_phrases_spec[OF sc]
  have T: "T = map (\<lambda>(w, ts). (w, map milliseconds_to_hms ts)) wt" and d: "distinct (map fst wt)"
    using scan_tokens_timestamps[OF sc] by simp_all
  have attr: "attribution ratio ?terms fuzzy_match cutoff = spec_attribution ratio ?terms fuzzy_match cutoff"
    using attribution_spec[OF assms] by (intro ext) simp
  have lookup: "map_of T w =
          (let words = ?words;
               hits = filter (\<lambda>i. spec_attribution ratio ?terms fuzzy_match cutoff (words ! i) = Some w)
                        [0..<length words]
           in if hits = [] then None
              else Some (map (\<lambda>i. milliseconds_to_hms
                                    (word_time chunk_start_time i (length words) chunk_length_ms)) hits))" for w
  proof -
    have "map_of wt w =
          extend_entry None
             (map (\<lambda>j. word_time chunk_start_time j (length ?words) chunk_length_ms)
                (attributed_indices (spec_attribution ratio ?terms fuzzy_match cutoff) w 0 ?words))"
      using scan_tokens_word_times[OF sc, of w] unfolding attr by simp
    moreover have "map_of T w = map_option (map milliseconds_to_hms) (map_of wt w)"
      unfolding T by (rule map_of_map_keyed)
    ultimately show ?thesis
      by (simp add: attributed_indices_filter extend_entry_def Let_def o_def)
  qed
  have dT: "distinct (map fst T)"
    using d unfolding T by (simp add: case_prod_unfold o_def)
  have caps: "set w \<inter> set upper_chars = {}" if "w \<in> fst ` set T" for w
  proof -
    from scan_tokens_key_source[OF sc that]
    show ?thesis
    proof
      assume "w \<in> set ?words"
      then have "set w \<subseteq> set (str_lower transcript)" by (rule str_split_chars)
      then show ?thesis using str_lower_no_upper[of transcript] by blast
    next
      assume "w \<in> set ?terms"
      then show ?thesis using str_lower_no_upper by auto
    qed
  qed
  from sr lookup dT caps show ?thesis by blast
qed

lemma scan_tokens_raises:
  assumes "fuzzy_match" and "\<not> (0 \<le> cutoff \<and> cutoff \<le> 1)"
  shows "\<exists>token\<in>set words. token \<notin> set search_words \<Longrightarrow>
         scan_tokens ratio search_words chunk_start_time chunk_length_ms fuzzy_match cutoff n i words st
           = Inl ValueError"
proof (induction words arbitrary: i st)
  case Nil
  then show ?case by simp
next
  case (Cons word rest)
  show ?case
  proof (cases "word \<in> set search_words")
    case True
    then have "\<exists>token\<in>set rest. token \<notin> set search_words" using Cons.prems by auto
    from Cons.IH[OF this] True show ?thesis by (simp add: scan_step_exact)
  next
    case False
    then show ?thesis using assms by (simp add: scan_step_invalid_cutoff)
  qed
qed

lemma scan_tokens_exact_only:
  "\<forall>token\<in>set words. token \<in> set search_words \<Longrightarrow>
     scan_tokens ratio search_words chunk_start_time chunk_length_ms fuzzy_match cutoff n i words st =
     scan_tokens ratio search_words chunk_start_time chunk_length_ms False cutoff n i words st"
proof (induction words arbitrary: i st)
  case Nil
  then show ?case by simp
next
  case (Cons word rest)
  then show ?case by (simp add: scan_step_exact)
qed

lemma search_exact_only:
  assumes "\<forall>token\<in>set (str_split (str_lower transcript)). token \<in> set (map str_lower search_words)"
  shows "search_word_in_transcript ratio transcript search_words chunk_start_time chunk_length_ms
           fuzzy_match cutoff =
         search_word_in_transcript ratio transcript search_words chunk_start_time chunk_length_ms
           False cutoff"
  unfolding search_word_in_transcript_def Let_def
  by (simp only: scan_tokens_exact_only[OF assms, where fuzzy_match = fuzzy_match])

lemma spec_attribution_exact:
  "token \<in> set terms \<Longrightarrow> spec_attribution ratio terms fuzzy_match cutoff token = Some token"
  by (simp add: spec_attribution_def)

section \<open>The claims\<close>

subsection \<open>C9: the display conversion\<close>

text \<open>
  C9. For every non-negative integer number of milliseconds \<open>m\<close>,
  \<^verbatim>\<open>milliseconds_to_hms\<close> returns \<open>HH:MM:SS\<close> with \<open>HH = m div 3600000\<close>,
  \<open>MM = (m div 60000) mod 60\<close> and \<open>SS = (m div 1000) mod 60\<close>. Each field is the decimal
  numeral of its value, at least two characters wide (a leading zero below ten); the hours
  field is not reduced modulo anything, so it does not wrap at 24 hours.
\<close>

theorem milliseconds_to_hms_fields:
  "milliseconds_to_hms (of_nat m) =
     fmt02 (int (m div 3600000)) @ '':'' @ fmt02 (int (m div 60000 mod 60)) @ '':'' @
     fmt02 (int (m div 1000 mod 60))
   \<and> 2 \<le> length (fmt02 (int k)) \<and> decimal_value (fmt02 (int k)) = k"
proof -
  have "2 \<le> length (fmt02 (int k))"
    using length_digits[of k] length_digits_ge10[of k] by (auto simp: fmt02_def)
  moreover have "decimal_value (fmt02 (int k)) = k"
    by (simp add: fmt02_def decimal_value_zero_cons decimal_value_digits)
  ultimately show ?thesis using hms_of_nat by simp
qed

text \<open>At 25 h 1 min 1.999 s the hours field reads 25 and the fraction of a second is dropped.\<close>

theorem milliseconds_to_hms_fields_witness:
  "milliseconds_to_hms 90061999 = ''25:01:01'' \<and> decimal_value ''07'' = 7"
  using milliseconds_to_hms_fields[of 90061999 7]
  by (simp add: fmt02_def digits.simps digit_chars_def)

subsection \<open>C2: the windows of a valid segmentation\<close>

text \<open>
  C2. For every duration \<open>total_duration_ms > 0\<close> and every window length above the
  overlap (the constant 3000 of \<^verbatim>\<open>split_audio\<close>), segmentation returns a non-empty list
  of \<open>n\<close> windows starting at \<open>0\<close>, \<open>step\<close>, \<open>2 * step\<close>, ... with
  \<open>step = window_length_ms - overlap\<close>; the last start is below the duration and the next
  start would not be; each window ends exactly \<open>overlap\<close> after the next one starts.
  With 40000 ms and windows of 15000 ms the starts are 0, 12000, 24000, 36000.
\<close>

theorem split_audio_windows:
  assumes "0 < total_duration_ms" and "overlap < window_length_ms"
  shows "\<exists>n. 0 < n
     \<and> split_audio total_duration_ms window_length_ms =
         Some (map (\<lambda>k. (int k * (window_length_ms - overlap),
                           int k * (window_length_ms - overlap) + window_length_ms)) [0..<n])
     \<and> int (n - 1) * (window_length_ms - overlap) < total_duration_ms
     \<and> total_duration_ms \<le> int n * (window_length_ms - overlap)
     \<and> (int k * (window_length_ms - overlap) + window_length_ms)
         - int (Suc k) * (window_length_ms - overlap) = overlap"
proof -
  let ?step = "window_length_ms - overlap"
  let ?n = "window_count total_duration_ms ?step 0"
  have step: "0 < ?step" using assms(2) by simp
  have "split_audio total_duration_ms window_length_ms =
          Some ([] @ map (window_at window_length_ms 0) [0..<?n])"
    unfolding split_audio_def by (rule split_audio_loop_returns[OF assms(2) refl])
  then have "split_audio total_duration_ms window_length_ms =
          Some (map (\<lambda>k. (int k * ?step, int k * ?step + window_length_ms)) [0..<?n])"
    by (simp add: window_at_def)
  moreover have "(int k * ?step + window_length_ms) - int (Suc k) * ?step = overlap"
    by (simp add: algebra_simps)
  ultimately show ?thesis
    using window_count_bounds[OF step assms(1)] by blast
qed

theorem split_audio_windows_witness:
  "split_audio 40000 15000 = Some [(0, 15000), (12000, 27000), (24000, 39000), (36000, 51000)]"
proof -
  have o: "overlap < 15000" by (simp add: overlap_def)
  from split_audio_windows[OF _ o, of 40000 0] obtain n where
    n: "split_audio 40000 15000 =
          Some (map (\<lambda>k. (int k * (15000 - overlap), int k * (15000 - overlap) + 15000)) [0..<n])"
    and lo: "int (n - 1) * (15000 - overlap) < 40000"
    and hi: "40000 \<le> int n * (15000 - overlap)"
    by auto
  from lo hi have "n = 4" by (simp add: overlap_def)
  then have "[0..<n] = [0, 1, 2, 3]" by (simp add: upt_conv_Cons)
  with n show ?thesis by (simp add: overlap_def)
qed

subsection \<open>C8: segmentation parameters are not validated\<close>

text \<open>
  C8 claims that a window length at or below the overlap makes the run fail fast, emitting
  no window and not looping forever. \<^verbatim>\<open>split_audio\<close> checks nothing: with a duration of
  1000 ms and a window length of 3000, equal to the overlap, the call never returns, and
  after three iterations it is still at \<open>start = 0\<close> and has emitted the window \<open>(0, 3000)\<close>
  three times.
\<close>

theorem split_audio_fail_fast_counterexample:
  "split_audio 1000 3000 = None
   \<and> split_audio_iter 3 1000 3000 (0, []) = (0, [(0, 3000), (0, 3000), (0, 3000)])"
proof -
  have "split_audio 1000 3000 = None"
    unfolding split_audio_def by (rule split_audio_loop_diverges) (simp_all add: overlap_def)
  moreover have "split_audio_iter 3 1000 3000 (0, []) = (0, [(0, 3000), (0, 3000), (0, 3000)])"
    by (simp add: numeral_3_eq_3 overlap_def)
  ultimately show ?thesis by simp
qed

text \<open>
  C8, amended. \<^verbatim>\<open>split_audio\<close> does not validate its parameters and raises nothing. On a
  recording without duration it returns the empty list of windows, whatever the window
  length. With a window length equal to the overlap and a positive duration, the state
  after \<open>k\<close> iterations is \<open>start = 0\<close> with \<open>k\<close> copies of the window \<open>(0, overlap)\<close> emitted,
  for every \<open>k\<close>, and the call never returns; a call returns exactly when some number of
  iterations reaches a start at or beyond the duration.
\<close>

theorem split_audio_unvalidated:
  "(total_duration_ms \<le> 0 \<longrightarrow> split_audio total_duration_ms window_length_ms = Some [])
   \<and> (0 < total_duration_ms \<longrightarrow>
        split_audio_iter k total_duration_ms overlap (0, []) = (0, replicate k (0, overlap))
        \<and> split_audio total_duration_ms overlap = None)
   \<and> (split_audio total_duration_ms overlap = Some r) =
        (\<exists>k s. split_audio_iter k total_duration_ms overlap (0, []) = (s, r) \<and> \<not> s < total_duration_ms)"
proof (intro conjI impI)
  assume "total_duration_ms \<le> 0"
  then show "split_audio total_duration_ms window_length_ms = Some []"
    unfolding split_audio_def by (subst split_audio_loop.simps) simp
next
  assume "0 < total_duration_ms"
  then show "split_audio_iter k total_duration_ms overlap (0, []) = (0, replicate k (0, overlap))"
    using split_audio_iter_stuck[of total_duration_ms k "[]"] by simp
next
  assume "0 < total_duration_ms"
  then show "split_audio total_duration_ms overlap = None"
    unfolding split_audio_def by (intro split_audio_loop_diverges) simp_all
next
  show "(split_audio total_duration_ms overlap = Some r) =
        (\<exists>k s. split_audio_iter k total_duration_ms overlap (0, []) = (s, r) \<and> \<not> s < total_duration_ms)"
    unfolding split_audio_def
    using split_audio_loop_exit[of total_duration_ms overlap 0 "[]" r]
      split_audio_iter_exit[of _ total_duration_ms overlap 0 "[]" _ r]
    by blast
qed

text \<open>
  An empty recording with a negative window length, and the duration of 40000 ms with a
  window length of 3000.
\<close>

theorem split_audio_unvalidated_witness:
  "split_audio 0 (- 5) = Some []
   \<and> split_audio_iter 2 40000 3000 (0, []) = (0, [(0, 3000), (0, 3000)])
   \<and> split_audio 40000 3000 = None"
proof -
  have o: "overlap = 3000" by (simp add: overlap_def)
  have a: "split_audio 0 (- 5) = Some []"
    using conjunct1[OF split_audio_unvalidated[of 0 "- 5"]] by simp
  have b: "split_audio_iter 2 40000 3000 (0, []) = (0, [(0, 3000), (0, 3000)])
           \<and> split_audio 40000 3000 = None"
    using conjunct1[OF conjunct2[OF split_audio_unvalidated[of 40000 _ 2]]] unfolding o
    by (simp add: numeral_2_eq_2)
  from a b show ?thesis by blast
qed


subsection \<open>C4: a token is attributed to at most one search term\<close>

text \<open>
  C4 claims that a token that is not a search term is recorded under its best match
  whenever fuzzy matching is enabled and that match reaches the cutoff. The cutoff is passed
  on as the request gives it. With the cutoff \<open>-1/2\<close> the search term \<open>fox\<close> reaches the
  cutoff for the token \<open>fax\<close>, and no occurrence is recorded: \<^verbatim>\<open>get_close_matches\<close>
  rejects a cutoff outside \<open>[0, 1]\<close> and the search raises \<^verbatim>\<open>ValueError\<close>.
\<close>

theorem fuzzy_cutoff_counterexample:
  "search_word_in_transcript example_ratio ''fax'' [''fox''] 0 15000 True (- (1 / 2)) = Inl ValueError
   \<and> str_split (str_lower ''fax'') = [''fax'']
   \<and> - (1 / 2) \<le> example_ratio ''fox'' ''fax''"
  by code_simp

text \<open>
  C4, amended. Let \<open>words\<close> be the whitespace tokens of the lower-cased transcript and let
  the search terms be lower-cased. If fuzzy matching is enabled, the cutoff is outside
  \<open>[0, 1]\<close> and some token is not itself a search term, the search raises \<^verbatim>\<open>ValueError\<close>.
  In every other case it returns, and its timestamp map is the one the specification
  describes: the entry of a key \<open>w\<close> lists, in the order of the tokens, the display times
  of exactly the tokens attributed to \<open>w\<close> by \<open>spec_attribution\<close> (the token itself when it
  is a search term, fuzzy matching not being attempted; else, with fuzzy matching enabled,
  the single best match when its similarity is at least the cutoff; else nothing), one
  time per token, and a key without such a token has no entry. Every key occurs once and
  contains no capital letter.
\<close>

theorem search_attributes_tokens:
  "if fuzzy_match \<and> \<not> (0 \<le> cutoff \<and> cutoff \<le> 1)
      \<and> (\<exists>token\<in>set (str_split (str_lower transcript)). token \<notin> set (map str_lower search_words))
   then search_word_in_transcript ratio transcript search_words chunk_start_time chunk_length_ms
          fuzzy_match cutoff = Inl ValueError
   else \<exists>timestamps concatenated_words concatenated_times.
     search_word_in_transcript ratio transcript search_words chunk_start_time chunk_length_ms
       fuzzy_match cutoff = Inr (timestamps, concatenated_words, concatenated_times)
     \<and> (\<forall>w. map_of timestamps w =
          (let words = str_split (str_lower transcript);
               hits = filter (\<lambda>i. spec_attribution ratio (map str_lower search_words) fuzzy_match
                                    cutoff (words ! i) = Some w) [0..<length words]
           in if hits = [] then None
              else Some (map (\<lambda>i. milliseconds_to_hms
                                    (word_time chunk_start_time i (length words) chunk_length_ms)) hits)))
     \<and> distinct (map fst timestamps)
     \<and> (\<forall>w\<in>fst ` set timestamps. set w \<inter> set upper_chars = {})"
proof -
  let ?words = "str_split (str_lower transcript)"
  let ?terms = "map str_lower search_words"
  consider
    (raises) "fuzzy_match" "\<not> (0 \<le> cutoff \<and> cutoff \<le> 1)" "\<exists>token\<in>set ?words. token \<notin> set ?terms"
  | (exact) "fuzzy_match" "\<not> (0 \<le> cutoff \<and> cutoff \<le> 1)" "\<forall>token\<in>set ?words. token \<in> set ?terms"
  | (valid) "fuzzy_match \<longrightarrow> 0 \<le> cutoff \<and> cutoff \<le> 1"
    by blast
  then show ?thesis
  proof cases
    case raises
    have "scan_tokens ratio ?terms chunk_start_time chunk_length_ms fuzzy_match cutoff
            (length ?words) 0 ?words ([], []) = Inl ValueError"
      by (rule scan_tokens_raises[OF raises])
    then have "search_word_in_transcript ratio transcript search_words chunk_start_time chunk_length_ms
          fuzzy_match cutoff = Inl ValueError"
      by (simp add: search_word_in_transcript_def Let_def)
    with raises show ?thesis by simp
  next
    case exact
    have same: "filter (\<lambda>i. spec_attribution ratio ?terms fuzzy_match cutoff (?words ! i) = Some w)
                  [0..<length ?words] =
                filter (\<lambda>i. spec_attribution ratio ?terms False cutoff (?words ! i) = Some w)
                  [0..<length ?words]" for w
    proof (rule filter_cong[OF refl])
      fix i assume "i \<in> set [0..<length ?words]"
      then have "?words ! i \<in> set ?terms" using exact(3) by simp
      then show "(spec_attribution ratio ?terms fuzzy_match cutoff (?words ! i) = Some w) =
                 (spec_attribution ratio ?terms False cutoff (?words ! i) = Some w)"
        by (simp only: spec_attribution_exact)
    qed
    have v: "False \<longrightarrow> 0 \<le> cutoff \<and> cutoff \<le> 1" by simp
    have c: "\<not> (fuzzy_match \<and> \<not> (0 \<le> cutoff \<and> cutoff \<le> 1)
      \<and> (\<exists>token\<in>set ?words. token \<notin> set ?terms))"
      using exact(3) by blast
    show ?thesis
      using search_attribution_valid[OF v, of ratio transcript search_words chunk_start_time chunk_length_ms]
      unfolding if_not_P[OF c] search_exact_only[OF exact(3), of ratio chunk_start_time chunk_length_ms fuzzy_match cutoff]
        Let_def same .
  next
    case valid
    then have c: "\<not> (fuzzy_match \<and> \<not> (0 \<le> cutoff \<and> cutoff \<le> 1)
      \<and> (\<exists>token\<in>set ?words. token \<notin> set ?terms))"
      by blast
    show ?thesis
      unfolding if_not_P[OF c] by (rule search_attribution_valid[OF valid])
  qed
qed

text \<open>
  The transcript \<open>Fox fax FOX dog\<close> searched for \<open>FOX\<close> and \<open>box\<close> with the cutoff \<open>1/2\<close>:
  three occurrences under \<open>fox\<close>, two exact and one fuzzy, and none for \<open>dog\<close>. With the
  cutoff 7 a transcript of exact matches only is searched normally, and the first other
  token raises.
\<close>

theorem search_attributes_tokens_witness:
  "search_word_in_transcript example_ratio ''Fox fax FOX dog'' [''FOX'', ''box''] 0 4000 True (1 / 2)
     = Inr ([(''fox'', [''00:00:00'', ''00:00:01'', ''00:00:02''])], [], [])
   \<and> spec_attribution example_ratio [''fox'', ''box''] True (1 / 2) ''fox'' = Some ''fox''
   \<and> spec_attribution example_ratio [''fox'', ''box''] True (1 / 2) ''fax'' = Some ''fox''
   \<and> spec_attribution example_ratio [''fox'', ''box''] True (1 / 2) ''dog'' = None
   \<and> search_word_in_transcript example_ratio ''fox Fox'' [''FOX'', ''box''] 0 4000 True 7
     = Inr ([(''fox'', [''00:00:00'', ''00:00:02''])], [], [])
   \<and> search_word_in_transcript example_ratio ''fox fax'' [''FOX'', ''box''] 0 4000 True 7
     = Inl ValueError"
proof -
  have ev: "search_word_in_transcript example_ratio ''Fox fax FOX dog'' [''FOX'', ''box''] 0 4000 True (1 / 2)
     = Inr ([(''fox'', [''00:00:00'', ''00:00:01'', ''00:00:02''])], [], [])"
    "search_word_in_transcript example_ratio ''fox Fox'' [''FOX'', ''box''] 0 4000 True 7
     = Inr ([(''fox'', [''00:00:00'', ''00:00:02''])], [], [])"
    by code_simp+
  have sp: "spec_attribution example_ratio [''fox'', ''box''] True (1 / 2) ''fox'' = Some ''fox''"
    "spec_attribution example_ratio [''fox'', ''box''] True (1 / 2) ''fax'' = Some ''fox''"
    "spec_attribution example_ratio [''fox'', ''box''] True (1 / 2) ''dog'' = None"
    by code_simp+
  have w: "str_split (str_lower ''fox fax'') = [''fox'', ''fax'']"
    "map str_lower [''FOX'', ''box''] = [''fox'', ''box'']"
    by code_simp+
  have c1: "\<not> (True \<and> \<not> (0 \<le> (1 / 2 :: rat) \<and> (1 / 2 :: rat) \<le> 1)
      \<and> (\<exists>token\<in>set (str_split (str_lower ''Fox fax FOX dog'')).
            token \<notin> set (map str_lower [''FOX'', ''box''])))"
    by simp
  from search_attributes_tokens[of True "1 / 2" "''Fox fax FOX dog''" "[''FOX'', ''box'']" example_ratio 0 4000]
  obtain T cw ct where
    T: "search_word_in_transcript example_ratio ''Fox fax FOX dog'' [''FOX'', ''box''] 0 4000 True (1 / 2)
       = Inr (T, cw, ct)"
    unfolding if_not_P[OF c1] by blast
  have c2: "True \<and> \<not> (0 \<le> (7 :: rat) \<and> (7 :: rat) \<le> 1)
      \<and> (\<exists>token\<in>set (str_split (str_lower ''fox fax'')).
            token \<notin> set (map str_lower [''FOX'', ''box'']))"
    unfolding w by simp
  have b: "search_word_in_transcript example_ratio ''fox fax'' [''FOX'', ''box''] 0 4000 True 7
     = Inl ValueError"
    using search_attributes_tokens[of True 7 "''fox fax''" "[''FOX'', ''box'']" example_ratio 0 4000]
    unfolding if_P[OF c2] .
  from T ev sp b show ?thesis by blast
qed


subsection \<open>C5: nothing found\<close>

text \<open>
  C5 claims that a search in which no token matches a search term, exactly or within the
  fuzzy cutoff, returns an empty result and never raises. With fuzzy matching enabled and
  the cutoff 7 no term is within the cutoff of the only token \<open>zzz\<close>, and the search raises
  \<^verbatim>\<open>ValueError\<close>.
\<close>

theorem search_raises_counterexample:
  "search_word_in_transcript example_ratio ''zzz'' [''fox''] 0 15000 True 7 = Inl ValueError
   \<and> str_split (str_lower ''zzz'') = [''zzz'']
   \<and> example_ratio ''fox'' ''zzz'' < 7"
  by code_simp

text \<open>
  C5, amended. Let no token of the transcript equal a search term and, when fuzzy matching
  is enabled with a cutoff in \<open>[0, 1]\<close>, let every search term be below the cutoff for every
  token. Then the search returns the empty timestamp map and empty phrase lists, except
  when the transcript has a token, fuzzy matching is enabled and the cutoff is outside
  \<open>[0, 1]\<close>: then it raises \<^verbatim>\<open>ValueError\<close>. On an empty transcript it always returns the
  empty result.
\<close>

theorem search_no_match_result:
  assumes "\<forall>word\<in>set (str_split (str_lower transcript)). word \<notin> set (map str_lower search_words)"
    and "fuzzy_match \<and> 0 \<le> cutoff \<and> cutoff \<le> 1 \<longrightarrow>
           (\<forall>word\<in>set (str_split (str_lower transcript)).
              \<forall>x\<in>set (map str_lower search_words). ratio x word < cutoff)"
  shows "search_word_in_transcript ratio transcript search_words chunk_start_time chunk_length_ms
           fuzzy_match cutoff =
         (if str_split (str_lower transcript) \<noteq> [] \<and> fuzzy_match \<and> \<not> (0 \<le> cutoff \<and> cutoff \<le> 1)
          then Inl ValueError
          else Inr ([], [], []))"
proof (cases "str_split (str_lower transcript) \<noteq> [] \<and> fuzzy_match \<and> \<not> (0 \<le> cutoff \<and> cutoff \<le> 1)")
  case True
  then obtain word rest where w: "str_split (str_lower transcript) = word # rest"
    by (cases "str_split (str_lower transcript)") auto
  have "word \<notin> set (map str_lower search_words)"
    using assms(1) unfolding w by simp
  then have "scan_step ratio (map str_lower search_words) chunk_start_time chunk_length_ms fuzzy_match
               cutoff (length (word # rest)) 0 word ([], []) = Inl ValueError"
    using True by (intro scan_step_invalid_cutoff) simp_all
  then have "scan_tokens ratio (map str_lower search_words) chunk_start_time chunk_length_ms fuzzy_match
               cutoff (length (word # rest)) 0 (word # rest) ([], []) = Inl ValueError"
    by simp
  then show ?thesis
    using True unfolding search_word_in_transcript_def Let_def w by simp
next
  case False
  let ?words = "str_split (str_lower transcript)"
  have "scan_tokens ratio (map str_lower search_words) chunk_start_time chunk_length_ms fuzzy_match
          cutoff (length ?words) 0 ?words ([], []) = Inr ([], [])"
  proof (cases "?words = []")
    case True
    then show ?thesis by simp
  next
    case ne: False
    have v: "fuzzy_match \<longrightarrow> 0 \<le> cutoff \<and> cutoff \<le> 1" using False ne by blast
    show ?thesis
    proof (rule scan_tokens_unmatched)
      show "\<forall>word\<in>set ?words. word \<notin> set (map str_lower search_words)" by (rule assms(1))
      show "fuzzy_match \<longrightarrow> 0 \<le> cutoff \<and> cutoff \<le> 1" by (rule v)
      show "fuzzy_match \<longrightarrow> (\<forall>word\<in>set ?words. \<forall>x\<in>set (map str_lower search_words). ratio x word < cutoff)"
        using assms(2) v by blast
    qed
  qed
  then show ?thesis
    using False by (simp add: search_word_in_transcript_def Let_def)
qed

text \<open>
  An empty transcript with the cutoff 7, and a transcript without a match with the cutoffs
  \<open>1/2\<close> and \<open>3/2\<close>.
\<close>

theorem search_no_match_result_witness:
  "search_word_in_transcript example_ratio [] [''fox''] 0 15000 True 7 = Inr ([], [], [])
   \<and> search_word_in_transcript example_ratio ''Hello  dog'' [''Fox'', ''box''] 12000 15000 True (1 / 2)
       = Inr ([], [], [])
   \<and> search_word_in_transcript example_ratio ''Hello  dog'' [''Fox'', ''box''] 12000 15000 True (3 / 2)
       = Inl ValueError"
proof -
  have w: "str_split (str_lower ''Hello  dog'') = [''hello'', ''dog'']"
    by code_simp
  have l: "map str_lower [''Fox'', ''box''] = [''fox'', ''box'']"
    by code_simp
  have e: "str_split (str_lower []) = []"
    by code_simp
  have a: "search_word_in_transcript example_ratio [] [''fox''] 0 15000 True 7 = Inr ([], [], [])"
    using search_no_match_result[of "[]" "[''fox'']" True 7 example_ratio 0 15000]
    unfolding e by simp
  have b: "search_word_in_transcript example_ratio ''Hello  dog'' [''Fox'', ''box''] 12000 15000 True (1 / 2)
       = Inr ([], [], [])"
    using search_no_match_result[of "''Hello  dog''" "[''Fox'', ''box'']" True "1 / 2" example_ratio 12000 15000]
    unfolding w l by (simp add: example_ratio_def)
  have c: "search_word_in_transcript example_ratio ''Hello  dog'' [''Fox'', ''box''] 12000 15000 True (3 / 2)
       = Inl ValueError"
    using search_no_match_result[of "''Hello  dog''" "[''Fox'', ''box'']" True "3 / 2" example_ratio 12000 15000]
    unfolding w l by simp
  from a b c show ?thesis by blast
qed


subsection \<open>C3: estimated times are interpolated and non-decreasing\<close>

text \<open>
  C3. Let the token loop run over the \<open>n\<close> tokens \<open>words\<close> of a window and return. The
  times recorded for a word \<open>w\<close> are, in order, \<open>chunk_start_time + (i / n) * chunk_length_ms\<close>
  for exactly the indices \<open>i\<close> (0-based, ascending) of the tokens attributed to \<open>w\<close>; a
  word without such a token has no entry. For a window length that is not negative the
  estimated time is non-decreasing in \<open>i\<close>. The display times in \<^verbatim>\<open>timestamps\<close> are these
  times converted entry by entry. (Times are exact rationals here, floats in the code.)
\<close>

theorem word_times_interpolated:
  assumes "scan_tokens ratio search_words chunk_start_time chunk_length_ms fuzzy_match cutoff
             (length words) 0 words ([], []) = Inr (timestamps, word_times)"
  shows "map_of word_times w =
           (let hits = filter (\<lambda>i. attribution ratio search_words fuzzy_match cutoff (words ! i) = Some w)
                         [0..<length words]
            in if hits = [] then None
               else Some (map (\<lambda>i. of_int chunk_start_time
                                   + (of_nat i / of_nat (length words)) * of_int chunk_length_ms) hits))
         \<and> (0 \<le> chunk_length_ms \<and> i \<le> j \<longrightarrow>
              word_time chunk_start_time i (length words) chunk_length_ms
                \<le> word_time chunk_start_time j (length words) chunk_length_ms)
         \<and> timestamps = map (\<lambda>(w, ts). (w, map milliseconds_to_hms ts)) word_times
         \<and> distinct (map fst word_times)"
proof -
  have "map_of word_times w =
          extend_entry None
             (map (\<lambda>j. word_time chunk_start_time j (length words) chunk_length_ms)
                (attributed_indices (attribution ratio search_words fuzzy_match cutoff) w 0 words))"
    using scan_tokens_word_times[OF assms, of w] by simp
  then have "map_of word_times w =
           (let hits = filter (\<lambda>i. attribution ratio search_words fuzzy_match cutoff (words ! i) = Some w)
                         [0..<length words]
            in if hits = [] then None
               else Some (map (\<lambda>i. of_int chunk_start_time
                                   + (of_nat i / of_nat (length words)) * of_int chunk_length_ms) hits))"
    by (simp add: attributed_indices_filter extend_entry_def word_time_def Let_def)
  moreover have "0 \<le> chunk_length_ms \<and> i \<le> j \<longrightarrow>
              word_time chunk_start_time i (length words) chunk_length_ms
                \<le> word_time chunk_start_time j (length words) chunk_length_ms"
    using word_time_mono by blast
  moreover have "timestamps = map (\<lambda>(w, ts). (w, map milliseconds_to_hms ts)) word_times
         \<and> distinct (map fst word_times)"
    using scan_tokens_timestamps[OF assms] by simp
  ultimately show ?thesis by blast
qed

text \<open>The spec's scenario: \<open>quick\<close> at index 1 and \<open>fox\<close> at index 3 of 4 tokens, window of 4000 ms.\<close>

theorem word_times_interpolated_witness:
  "scan_tokens example_ratio [''quick'', ''fox''] 0 4000 False (4 / 5) 4 0
       [''the'', ''quick'', ''brown'', ''fox''] ([], []) =
     Inr ([(''quick'', [''00:00:01'']), (''fox'', [''00:00:03''])],
          [(''quick'', [1000]), (''fox'', [3000])])
   \<and> map_of [(''quick'', [1000 :: rat]), (''fox'', [3000])] ''fox'' = Some [0 + (3 / 4) * 4000]
   \<and> word_time 0 1 4 4000 \<le> word_time 0 3 4 4000"
proof (intro conjI)
  show ev4: "scan_tokens example_ratio [''quick'', ''fox''] 0 4000 False (4 / 5) 4 0
       [''the'', ''quick'', ''brown'', ''fox''] ([], []) =
     Inr ([(''quick'', [''00:00:01'']), (''fox'', [''00:00:03''])],
          [(''quick'', [1000]), (''fox'', [3000])])"
    by (simp add: scan_step_def record_occurrence_def dict_append_def word_time_def
        milliseconds_to_hms_def fmt02_def digits.simps digit_chars_def floor_rat_numeral)
  have len: "length [''the'', ''quick'', ''brown'', ''fox''] = 4" by simp
  have ev: "scan_tokens example_ratio [''quick'', ''fox''] 0 4000 False (4 / 5)
       (length [''the'', ''quick'', ''brown'', ''fox'']) 0
       [''the'', ''quick'', ''brown'', ''fox''] ([], []) =
     Inr ([(''quick'', [''00:00:01'']), (''fox'', [''00:00:03''])],
          [(''quick'', [1000]), (''fox'', [3000])])"
    unfolding len by (rule ev4)
  show "word_time 0 1 4 4000 \<le> word_time 0 3 4 4000"
    using conjunct1[OF conjunct2[OF word_times_interpolated[OF ev, of "''fox''" 1 3]]]
    by (simp add: word_time_def)
  show "map_of [(''quick'', [1000 :: rat]), (''fox'', [3000])] ''fox'' = Some [0 + (3 / 4) * 4000]"
    by simp
qed

subsection \<open>C6: greedy clustering with an advancing reference\<close>

text \<open>
  C6. Whenever the token loop returns, the phrases returned by
  \<^verbatim>\<open>search_word_in_transcript\<close> are those of the greedy clustering \<open>spec_phrases\<close> of the
  distinct words ordered by earliest time: a word joins the current cluster exactly when
  its earliest time is within 1000 ms of the earliest time of the word accepted last, the
  reference advancing to it; a cluster of one word emits nothing; the display time of an
  emitted phrase is the minimum time of its words. In particular the two \<^verbatim>\<open>min\<close> calls never
  raise.
\<close>

theorem search_phrases_greedy:
  assumes "scan_tokens ratio (map str_lower search_words) chunk_start_time chunk_length_ms fuzzy_match
             cutoff (length (str_split (str_lower transcript))) 0 (str_split (str_lower transcript))
             ([], []) = Inr (timestamps, word_times)"
  shows "search_word_in_transcript ratio transcript search_words chunk_start_time chunk_length_ms
           fuzzy_match cutoff =
         Inr (timestamps,
              map fst (spec_phrases (earliest_times word_times)),
              map snd (spec_phrases (earliest_times word_times)))"
proof -
  have "\<forall>e\<in>set (sort_key sort_time word_times). snd e \<noteq> []"
    using scan_tokens_nonempty[OF assms] by simp
  then have "assemble_phrases (sort_key sort_time word_times) =
      Inr (map fst (spec_phrases (map earliest (sort_key sort_time word_times))),
           map snd (spec_phrases (map earliest (sort_key sort_time word_times))))"
    by (rule assemble_phrases_greedy)
  then show ?thesis
    using assms by (simp add: search_word_in_transcript_def Let_def earliest_times_def)
qed

text \<open>
  \<open>alpha\<close> at 500 ms and \<open>beta\<close> at 1000 ms form a phrase displayed at the time of
  \<open>alpha\<close>; \<open>quick\<close> at 1000 ms and \<open>fox\<close> at 3000 ms form none.
\<close>

theorem search_phrases_greedy_witness:
  "search_word_in_transcript example_ratio ''x alpha Beta c d e f g'' [''beta'', ''alpha''] 0 4000 False (4 / 5)
     = Inr ([(''alpha'', [''00:00:00'']), (''beta'', [''00:00:01''])], [''alpha beta''], [''00:00:00''])
   \<and> search_word_in_transcript example_ratio ''the quick brown fox'' [''quick'', ''fox''] 0 4000 False (4 / 5)
     = Inr ([(''quick'', [''00:00:01'']), (''fox'', [''00:00:03''])], [], [])"
proof (intro conjI)
  have ev: "scan_tokens example_ratio (map str_lower [''beta'', ''alpha'']) 0 4000 False (4 / 5)
      (length (str_split (str_lower ''x alpha Beta c d e f g''))) 0
      (str_split (str_lower ''x alpha Beta c d e f g'')) ([], [])
    = Inr ([(''alpha'', [''00:00:00'']), (''beta'', [''00:00:01''])],
           [(''alpha'', [500]), (''beta'', [1000])])"
    by code_simp
  have sp: "spec_phrases (earliest_times [(''alpha'', [500]), (''beta'', [1000])]) =
      [(''alpha beta'', ''00:00:00'')]"
    by code_simp
  show "search_word_in_transcript example_ratio ''x alpha Beta c d e f g'' [''beta'', ''alpha''] 0 4000 False (4 / 5)
     = Inr ([(''alpha'', [''00:00:00'']), (''beta'', [''00:00:01''])], [''alpha beta''], [''00:00:00''])"
    using search_phrases_greedy[OF ev] unfolding sp by simp
  have ev2: "scan_tokens example_ratio (map str_lower [''quick'', ''fox'']) 0 4000 False (4 / 5)
      (length (str_split (str_lower ''the quick brown fox''))) 0
      (str_split (str_lower ''the quick brown fox'')) ([], [])
    = Inr ([(''quick'', [''00:00:01'']), (''fox'', [''00:00:03''])],
           [(''quick'', [1000]), (''fox'', [3000])])"
    by code_simp
  have sp2: "spec_phrases (earliest_times [(''quick'', [1000]), (''fox'', [3000])]) = []"
    by code_simp
  show "search_word_in_transcript example_ratio ''the quick brown fox'' [''quick'', ''fox''] 0 4000 False (4 / 5)
     = Inr ([(''quick'', [''00:00:01'']), (''fox'', [''00:00:03''])], [], [])"
    using search_phrases_greedy[OF ev2] unfolding sp2 by simp
qed

subsection \<open>C7: which words share a phrase\<close>

text \<open>
  C7 claims that any two words of one phrase have earliest times at most 1000 ms apart.
  The reference advances, so a phrase can chain: with 16 tokens in a window of 15000 ms,
  \<open>alpha\<close>, \<open>beta\<close> and \<open>gamma\<close> at indices 0, 1, 2 are 937.5 ms apart and form one phrase,
  although \<open>alpha\<close> (0 ms) and \<open>gamma\<close> (1875 ms) are further apart than the threshold.
\<close>

theorem phrase_gap_counterexample:
  "search_word_in_transcript example_ratio ''alpha beta gamma a b c d e f g h i j k l m''
       [''alpha'', ''beta'', ''gamma''] 0 15000 False (4 / 5)
     = Inr ([(''alpha'', [''00:00:00'']), (''beta'', [''00:00:00'']), (''gamma'', [''00:00:01''])],
            [''alpha beta gamma''], [''00:00:00''])
   \<and> word_time 0 0 16 15000 = 0 \<and> word_time 0 2 16 15000 = 1875
   \<and> \<not> \<bar>word_time 0 2 16 15000 - word_time 0 0 16 15000\<bar> \<le> 1000"
  by code_simp

text \<open>
  C7, amended. Whenever the token loop returns, the emitted phrases are the clusters of two
  or more words; in every cluster each word's earliest time is within 1000 ms of that of
  the word before it; and two distinct words of the window whose earliest times differ by
  at most 1000 ms are in one emitted phrase.
\<close>

theorem phrases_chain_neighbours:
  assumes "scan_tokens ratio (map str_lower search_words) chunk_start_time chunk_length_ms fuzzy_match
             cutoff (length (str_split (str_lower transcript))) 0 (str_split (str_lower transcript))
             ([], []) = Inr (timestamps, word_times)"
  shows "search_word_in_transcript ratio transcript search_words chunk_start_time chunk_length_ms
           fuzzy_match cutoff =
         Inr (timestamps,
              map (\<lambda>c. phrase_text (map fst c))
                (filter (\<lambda>c. 2 \<le> length c) (clusters (earliest_times word_times))),
              map (\<lambda>c. milliseconds_to_hms (Min (set (map snd c))))
                (filter (\<lambda>c. 2 \<le> length c) (clusters (earliest_times word_times))))
       \<and> (\<forall>c\<in>set (clusters (earliest_times word_times)). chained c)
       \<and> (p \<in> set (earliest_times word_times) \<and> q \<in> set (earliest_times word_times) \<and> p \<noteq> q
            \<and> \<bar>snd p - snd q\<bar> \<le> 1000 \<longrightarrow>
          (\<exists>c\<in>set (filter (\<lambda>c. 2 \<le> length c) (clusters (earliest_times word_times))).
              p \<in> set c \<and> q \<in> set c))"
proof (intro conjI impI)
  show "search_word_in_transcript ratio transcript search_words chunk_start_time chunk_length_ms
           fuzzy_match cutoff =
         Inr (timestamps,
              map (\<lambda>c. phrase_text (map fst c))
                (filter (\<lambda>c. 2 \<le> length c) (clusters (earliest_times word_times))),
              map (\<lambda>c. milliseconds_to_hms (Min (set (map snd c))))
                (filter (\<lambda>c. 2 \<le> length c) (clusters (earliest_times word_times))))"
    using search_phrases_spec[OF assms] by (simp add: spec_phrases_def phrase_of_def o_def)
  show "\<forall>c\<in>set (clusters (earliest_times word_times)). chained c"
    using clusters_chained by blast
next
  assume h: "p \<in> set (earliest_times word_times) \<and> q \<in> set (earliest_times word_times) \<and> p \<noteq> q
            \<and> \<bar>snd p - snd q\<bar> \<le> 1000"
  have "sorted (map snd (earliest_times word_times))"
    using scan_tokens_nonempty[OF assms] by (intro sorted_earliest_times) blast
  from clusters_close[OF this, of p q] h obtain c where
    c: "c \<in> set (clusters (earliest_times word_times))" "p \<in> set c" "q \<in> set c" by blast
  have "2 \<le> length c"
  proof (rule ccontr)
    assume "\<not> 2 \<le> length c"
    then have "length c \<le> 1" by simp
    then have "p = q" using c(2,3)
      by (cases c) auto
    with h show False by simp
  qed
  with c show "\<exists>c\<in>set (filter (\<lambda>c. 2 \<le> length c) (clusters (earliest_times word_times))).
              p \<in> set c \<and> q \<in> set c"
    by auto
qed

theorem phrases_chain_neighbours_witness:
  "search_word_in_transcript example_ratio ''alpha beta gamma a b c d e f g h i j k l m''
       [''alpha'', ''gamma'', ''beta''] 0 15000 False (4 / 5)
     = Inr ([(''alpha'', [''00:00:00'']), (''beta'', [''00:00:00'']), (''gamma'', [''00:00:01''])],
            [''alpha beta gamma''], [''00:00:00''])
   \<and> chained [(''alpha'', 0), (''beta'', 1875 / 2), (''gamma'', 1875)]"
proof -
  have ev: "scan_tokens example_ratio (map str_lower [''alpha'', ''gamma'', ''beta'']) 0 15000 False (4 / 5)
      (length (str_split (str_lower ''alpha beta gamma a b c d e f g h i j k l m''))) 0
      (str_split (str_lower ''alpha beta gamma a b c d e f g h i j k l m'')) ([], [])
    = Inr ([(''alpha'', [''00:00:00'']), (''beta'', [''00:00:00'']), (''gamma'', [''00:00:01''])],
           [(''alpha'', [0]), (''beta'', [1875 / 2]), (''gamma'', [1875])])"
    by code_simp
  have cl: "clusters (earliest_times [(''alpha'', [0]), (''beta'', [1875 / 2]), (''gamma'', [1875])]) =
      [[(''alpha'', 0), (''beta'', 1875 / 2), (''gamma'', 1875)]]"
    by code_simp
  have ph: "phrase_text (map fst [(''alpha'', 0 :: rat), (''beta'', 1875 / 2), (''gamma'', 1875)]) = ''alpha beta gamma''"
    "milliseconds_to_hms (Min (set (map snd [(''alpha'', 0 :: rat), (''beta'', 1875 / 2), (''gamma'', 1875)]))) = ''00:00:00''"
    by code_simp+
  note T = phrases_chain_neighbours[OF ev, of "(''alpha'', 0)" "(''beta'', 1875 / 2)", unfolded cl]
  have a: "search_word_in_transcript example_ratio ''alpha beta gamma a b c d e f g h i j k l m''
       [''alpha'', ''gamma'', ''beta''] 0 15000 False (4 / 5)
     = Inr ([(''alpha'', [''00:00:00'']), (''beta'', [''00:00:00'']), (''gamma'', [''00:00:01''])],
            [''alpha beta gamma''], [''00:00:00''])"
    using conjunct1[OF T] ph by simp
  have b: "chained [(''alpha'', 0), (''beta'', 1875 / 2), (''gamma'', 1875)]"
    using conjunct1[OF conjunct2[OF T]] by simp
  from a b show ?thesis by blast
qed

subsection \<open>C1: phrases are assembled window by window\<close>

text \<open>
  C1 claims one assembly pass over the occurrences of all windows, so that two words whose
  earliest times are within the threshold form a phrase even when they were detected in
  different windows. The code assembles phrases inside each call of
  \<^verbatim>\<open>search_word_in_transcript\<close>: \<open>alpha\<close> at 11250 ms in window 0 and \<open>beta\<close> at 12000 ms in
  window 1 are 750 ms apart and the run reports no phrase.
\<close>

theorem cross_window_phrase_counterexample:
  "process_chunks example_ratio [''alpha'', ''beta''] False (4 / 5) 0 [''a b c alpha'', ''beta d''] []
     = Inr [(''alpha'', [''00:00:11'']), (''beta'', [''00:00:12''])]
   \<and> word_time (int 0 * (15000 - 3000)) 3 4 15000 = 11250
   \<and> word_time (int 1 * (15000 - 3000)) 0 2 15000 = 12000
   \<and> \<bar>word_time (int 1 * (15000 - 3000)) 0 2 15000 - word_time (int 0 * (15000 - 3000)) 3 4 15000\<bar> \<le> 1000"
  by code_simp

text \<open>
  C1, amended. Every key of the final map comes from one window: it is a word detected in
  that window, or a phrase emitted by the search of that window, which joins two or more
  words that were all detected in that same window.
\<close>

theorem process_phrases_per_window:
  assumes "process_chunks ratio search_words fuzzy_match cutoff 0 texts [] = Inr timestamps"
    and "key \<in> fst ` set timestamps"
  shows "\<exists>j<length texts. \<exists>word_timestamps concatenated_words concatenated_times.
           search_word_in_transcript ratio (texts ! j) search_words (int j * (15000 - 3000)) 15000
             fuzzy_match cutoff = Inr (word_timestamps, concatenated_words, concatenated_times)
           \<and> (key \<in> fst ` set word_timestamps
                \<or> (key \<in> set concatenated_words
                    \<and> (\<exists>ws. key = phrase_text ws \<and> 2 \<le> length ws
                            \<and> set ws \<subseteq> fst ` set word_timestamps)))"
proof -
  have "key \<notin> fst ` set ([] :: string pydict)" by simp
  with process_chunks_keys[OF assms] obtain j T cw ct where
    j: "j < length texts"
    and sr0: "search_word_in_transcript ratio (texts ! j) search_words (int (0 + j) * (15000 - 3000)) 15000
             fuzzy_match cutoff = Inr (T, cw, ct)"
    and k: "key \<in> fst ` set T \<or> key \<in> set cw"
    by blast
  have sr: "search_word_in_transcript ratio (texts ! j) search_words (int j * (15000 - 3000)) 15000
             fuzzy_match cutoff = Inr (T, cw, ct)"
    using sr0 by simp
  from k have "key \<in> fst ` set T
                \<or> (key \<in> set cw \<and> (\<exists>ws. key = phrase_text ws \<and> 2 \<le> length ws \<and> set ws \<subseteq> fst ` set T))"
    using phrase_words_detected[OF sr] by blast
  with j sr show ?thesis by blast
qed

text \<open>Both words in window 0: the phrase is formed there and kept in the final map.\<close>

theorem process_phrases_per_window_witness:
  "process_chunks example_ratio [''alpha'', ''beta''] False (4 / 5) 0
       [''alpha beta c d e f g h i j k l m n o p'', ''beta d''] []
     = Inr [(''alpha'', [''00:00:00'']), (''beta'', [''00:00:00'', ''00:00:12'']),
            (''alpha beta'', [''00:00:00''])]
   \<and> search_word_in_transcript example_ratio ''alpha beta c d e f g h i j k l m n o p''
         [''alpha'', ''beta''] (int 0 * (15000 - 3000)) 15000 False (4 / 5)
     = Inr ([(''alpha'', [''00:00:00'']), (''beta'', [''00:00:00''])], [''alpha beta''], [''00:00:00''])
   \<and> ''alpha beta'' = phrase_text [''alpha'', ''beta'']"
proof -
  have ev: "process_chunks example_ratio [''alpha'', ''beta''] False (4 / 5) 0
       [''alpha beta c d e f g h i j k l m n o p'', ''beta d''] []
     = Inr [(''alpha'', [''00:00:00'']), (''beta'', [''00:00:00'', ''00:00:12'']),
            (''alpha beta'', [''00:00:00''])]"
    by code_simp
  have key: "''alpha beta'' \<in> fst ` set [(''alpha'', [''00:00:00'']), (''beta'', [''00:00:00'', ''00:00:12'']),
            (''alpha beta'', [''00:00:00''])]"
    by simp
  have sr: "search_word_in_transcript example_ratio ''alpha beta c d e f g h i j k l m n o p''
         [''alpha'', ''beta''] (int 0 * (15000 - 3000)) 15000 False (4 / 5)
     = Inr ([(''alpha'', [''00:00:00'']), (''beta'', [''00:00:00''])], [''alpha beta''], [''00:00:00''])"
    by code_simp
  have pt: "''alpha beta'' = phrase_text [''alpha'', ''beta'']"
    by (simp add: phrase_text_def)
  from process_phrases_per_window[OF ev key] ev sr pt show ?thesis by blast
qed

subsection \<open>C10: word keys accumulate, a phrase key keeps its first time\<close>

text \<open>
  C10. Merging a window into the global map appends the window's times of a word to the
  list the word already has (or inserts them for a new word), and leaves an existing
  phrase key untouched, inserting a one-element list for a new one. As word keys never
  contain a space (the search words come from \<^verbatim>\<open>split()\<close>, as the tokens do) and a phrase
  always does, the final map of a run holds for a phrase exactly one display time, the one
  given by the earliest window that emitted the phrase.
\<close>

theorem merged_timestamps_accumulate:
  "(distinct (map fst word_timestamps) \<longrightarrow>
      map_of (merge_word_timestamps timestamps word_timestamps) word =
        (case map_of word_timestamps word of
           None \<Rightarrow> map_of timestamps word
         | Some time_list \<Rightarrow>
             Some ((case map_of timestamps word of None \<Rightarrow> [] | Some old \<Rightarrow> old) @ time_list)))
   \<and> map_of (merge_phrases timestamps phrases) phrase =
        (case map_of timestamps phrase of
           Some old \<Rightarrow> Some old
         | None \<Rightarrow> map_option (\<lambda>time. [time]) (map_of phrases phrase))
   \<and> (process_chunks ratio search_words fuzzy_match cutoff 0 texts [] = Inr final
        \<and> (\<forall>w\<in>set search_words. CHR '' '' \<notin> set w) \<and> CHR '' '' \<in> set phrase \<longrightarrow>
      map_of final phrase =
        map_option (\<lambda>time. [time])
          (first_phrase_time ratio search_words fuzzy_match cutoff 0 texts phrase))"
proof (intro conjI impI)
  assume "distinct (map fst word_timestamps)"
  then show "map_of (merge_word_timestamps timestamps word_timestamps) word =
        (case map_of word_timestamps word of
           None \<Rightarrow> map_of timestamps word
         | Some time_list \<Rightarrow>
             Some ((case map_of timestamps word of None \<Rightarrow> [] | Some old \<Rightarrow> old) @ time_list))"
    by (rule merge_word_timestamps_map_of)
next
  show "map_of (merge_phrases timestamps phrases) phrase =
        (case map_of timestamps phrase of
           Some old \<Rightarrow> Some old
         | None \<Rightarrow> map_option (\<lambda>time. [time]) (map_of phrases phrase))"
    by (rule merge_phrases_map_of)
next
  assume h: "process_chunks ratio search_words fuzzy_match cutoff 0 texts [] = Inr final
        \<and> (\<forall>w\<in>set search_words. CHR '' '' \<notin> set w) \<and> CHR '' '' \<in> set phrase"
  then have "map_of final phrase =
           (case map_of [] phrase of
              Some old \<Rightarrow> Some old
            | None \<Rightarrow> map_option (\<lambda>time. [time])
                        (first_phrase_time ratio search_words fuzzy_match cutoff 0 texts phrase))"
    by (intro process_chunks_phrase) simp_all
  then show "map_of final phrase =
        map_option (\<lambda>time. [time])
          (first_phrase_time ratio search_words fuzzy_match cutoff 0 texts phrase)"
    by simp
qed

text \<open>
  Windows 0 and 2 both emit \<open>alpha beta\<close>, at 0 s and at 24 s; the words accumulate both
  times and the phrase keeps the first.
\<close>

theorem merged_timestamps_accumulate_witness:
  "process_chunks example_ratio [''alpha'', ''beta''] False (4 / 5) 0
       [''alpha beta c d e f g h i j k l m n o p'', [], ''Alpha Beta c d e f g h i j k l m n o p''] []
     = Inr [(''alpha'', [''00:00:00'', ''00:00:24'']), (''beta'', [''00:00:00'', ''00:00:24'']),
            (''alpha beta'', [''00:00:00''])]
   \<and> first_phrase_time example_ratio [''alpha'', ''beta''] False (4 / 5) 0
       [''alpha beta c d e f g h i j k l m n o p'', [], ''Alpha Beta c d e f g h i j k l m n o p'']
       ''alpha beta'' = Some ''00:00:00''
   \<and> first_phrase_time example_ratio [''alpha'', ''beta''] False (4 / 5) 2
       [''Alpha Beta c d e f g h i j k l m n o p''] ''alpha beta'' = Some ''00:00:24''
   \<and> merge_word_timestamps [(''alpha'', [''00:00:00''])] [(''alpha'', [''00:00:24''])] =
       [(''alpha'', [''00:00:00'', ''00:00:24''])]
   \<and> merge_phrases [(''alpha beta'', [''00:00:00''])] [(''alpha beta'', ''00:00:24'')] =
       [(''alpha beta'', [''00:00:00''])]"
proof -
  have ev: "process_chunks example_ratio [''alpha'', ''beta''] False (4 / 5) 0
       [''alpha beta c d e f g h i j k l m n o p'', [], ''Alpha Beta c d e f g h i j k l m n o p''] []
     = Inr [(''alpha'', [''00:00:00'', ''00:00:24'']), (''beta'', [''00:00:00'', ''00:00:24'']),
            (''alpha beta'', [''00:00:00''])]"
    by code_simp
  define X where "X = first_phrase_time example_ratio [''alpha'', ''beta''] False (4 / 5) 0
       [''alpha beta c d e f g h i j k l m n o p'', [], ''Alpha Beta c d e f g h i j k l m n o p'']
       ''alpha beta''"
  have hyp: "(\<forall>w\<in>set [''alpha'', ''beta'']. CHR '' '' \<notin> set w) \<and> CHR '' '' \<in> set ''alpha beta''"
    by simp
  have e: "map_of [(''alpha'', [''00:00:00'', ''00:00:24'']), (''beta'', [''00:00:00'', ''00:00:24'']),
            (''alpha beta'', [''00:00:00''])] ''alpha beta'' = map_option (\<lambda>time. [time]) X"
    unfolding X_def
    by (rule mp[OF conjunct2[OF conjunct2[OF merged_timestamps_accumulate]] conjI[OF ev hyp]])
  have "X = Some ''00:00:00''"
    using e by (cases X) simp_all
  then have f: "first_phrase_time example_ratio [''alpha'', ''beta''] False (4 / 5) 0
       [''alpha beta c d e f g h i j k l m n o p'', [], ''Alpha Beta c d e f g h i j k l m n o p'']
       ''alpha beta'' = Some ''00:00:00''"
    unfolding X_def .
  have g: "first_phrase_time example_ratio [''alpha'', ''beta''] False (4 / 5) 2
       [''Alpha Beta c d e f g h i j k l m n o p''] ''alpha beta'' = Some ''00:00:24''"
    by code_simp
  have m: "merge_word_timestamps [(''alpha'', [''00:00:00''])] [(''alpha'', [''00:00:24''])] =
       [(''alpha'', [''00:00:00'', ''00:00:24''])]"
    "merge_phrases [(''alpha beta'', [''00:00:00''])] [(''alpha beta'', ''00:00:24'')] =
       [(''alpha beta'', [''00:00:00''])]"
    by simp_all
  from ev f g m show ?thesis by blast
qed

end
